theory Spec2Isabelle
  imports Main "HOL-Library.Log_Nat"
begin

section \<open>Data model (types.ts)\<close>

text \<open>
  The three flight types and the moods of \<^verbatim>\<open>types.ts\<close>. A \<^verbatim>\<open>FlightLog\<close> carries its
  \<^verbatim>\<open>date\<close> as an ISO string; every use in \<^verbatim>\<open>App.tsx\<close> is \<^verbatim>\<open>new Date(l.date)\<close>, so the
  model stores the parsed time value: milliseconds since the epoch, an integer. Strings
  that do not parse (Invalid Date) are outside the model. \<^verbatim>\<open>flightTime\<close> is a JavaScript
  number: a finite binary64 value, held as the rational it denotes.
\<close>

datatype FlightType = single | multi | night

datatype MoodType = tired | comfortable | normal | happy

record FlightRatings =
  preFlight :: int
  inFlight :: int
  postFlight :: int

record FlightLog =
  logId :: string
  date :: int
  type :: FlightType
  flightTime :: rat
  ratings :: FlightRatings
  mood :: "MoodType option"
  logNotes :: string
  createdAt :: int

record FlightStats =
  flightsToday :: int
  flightsThisWeek :: int
  flightsThisYear :: int
  flightsThisMonth :: int
  hoursToday :: rat
  hoursThisWeek :: rat
  hoursThisMonth :: rat
  hoursThisYear :: rat
  soloFlightsToday :: int
  soloFlightsThisWeek :: int
  soloFlightsThisMonth :: int
  soloFlightsThisYear :: int
  multiFlightsToday :: int
  multiFlightsThisWeek :: int
  multiFlightsThisMonth :: int
  multiFlightsThisYear :: int
  daysSinceLastFlight :: int
  consecutiveDays :: int
  maxStreak :: int
  minStreak :: int
  streakBreaks :: int
  maxRestStreak :: int
  minRestStreak :: int
  restBreaks :: int
  totalFlights :: int
  totalSoloFlights :: int
  totalMultiFlights :: int
  totalHours :: rat
  avgDuration :: rat
  maxDuration :: rat
  minDuration :: rat
  totalNightFlights :: int
  daysSinceLastIncident :: int

section \<open>JavaScript numbers: binary64 arithmetic on durations\<close>

text \<open>
  \<^verbatim>\<open>acc + curr.flightTime\<close> and \<^verbatim>\<open>totalHours / validLogs.length\<close> are IEEE 754 binary64
  operations: the exact result rounded to the nearest value with a 53-bit significand,
  ties to the even significand. \<open>fl\<close> is that rounding on rationals. The exponent range
  is not bounded here: overflow to Infinity and subnormal results are outside the model,
  as are NaN and the sign of zero.
\<close>

definition ilog2 :: "rat \<Rightarrow> int" where
  "ilog2 x = (let (p, q) = quotient_of x; d = bitlen p - bitlen q
              in if 2 powi d \<le> x then d else d - 1)"

definition roundTiesToEven :: "rat \<Rightarrow> int" where
  "roundTiesToEven y =
     (let f = \<lfloor>y\<rfloor>; r = y - of_int f
      in if r < 1 / 2 then f else if 1 / 2 < r then f + 1 else if even f then f else f + 1)"

definition fl :: "rat \<Rightarrow> rat" where
  "fl x = (if x = 0 then 0
           else let u = 2 powi (ilog2 \<bar>x\<bar> - 52)
                in sgn x * of_int (roundTiesToEven (\<bar>x\<bar> / u)) * u)"

definition fadd :: "rat \<Rightarrow> rat \<Rightarrow> rat" where
  "fadd a b = fl (a + b)"

definition fdiv :: "rat \<Rightarrow> rat \<Rightarrow> rat" where
  "fdiv a b = fl (a / b)"

section \<open>Dates: the Date object and the date-fns functions the memo calls\<close>

text \<open>
  A Date is an instant: milliseconds since the epoch. The host's time zone is a parameter
  with two parts. \<open>offsetAt\<close> gives, at each instant, the offset of local time from UTC in
  milliseconds (\<^verbatim>\<open>getTimezoneOffset()\<close> is \<open>- offsetAt / 60000\<close>); it may change from one
  instant to another, as it does at a daylight-saving transition. \<open>instantOf\<close> is the way
  back that the setters of a Date use (\<^verbatim>\<open>setHours\<close>, \<^verbatim>\<open>setDate\<close>): the instant at which the
  local clock shows a given reading. \<open>fixedZone\<close> is a zone whose offset never changes.
  \<open>newYork2024\<close> is the zone America/New_York around its change of 2024-11-03, when at
  06:00 UTC the offset went from -4 to -5 hours; a reading that the clock showed twice that
  night is taken at its first occurrence, and the other changes of that zone are left out.
\<close>

record Zone =
  offsetAt :: "int \<Rightarrow> int"
  instantOf :: "int \<Rightarrow> int"

definition fixedZone :: "int \<Rightarrow> Zone" where
  "fixedZone c = \<lparr> offsetAt = (\<lambda>t. c), instantOf = (\<lambda>w. w - c) \<rparr>"

definition newYork2024 :: Zone where
  "newYork2024 =
     \<lparr> offsetAt = (\<lambda>t. if t < 1730613600000 then - 14400000 else - 18000000),
       instantOf = (\<lambda>w. if w < 1730599200000 then w + 14400000 else w + 18000000) \<rparr>"

text \<open>
  \<open>localTime\<close> is the reading of the local clock at an instant, as milliseconds since
  1970-01-01 00:00 on that clock: the local fields of the Date. \<open>localDay\<close> numbers the
  local calendar days from 1970-01-01, and \<open>civil\<close> gives the year, the month (0 to 11, as
  \<^verbatim>\<open>getMonth\<close> does) and the day of the month of a day number in the proleptic Gregorian
  calendar.
\<close>

definition msPerDay :: int where
  "msPerDay = 86400000"

definition localTime :: "Zone \<Rightarrow> int \<Rightarrow> int" where
  "localTime z t = t + offsetAt z t"

definition localDay :: "Zone \<Rightarrow> int \<Rightarrow> int" where
  "localDay z t = localTime z t div msPerDay"

definition civil :: "int \<Rightarrow> int \<times> int \<times> int" where
  "civil d =
     (let z = d + 719468;
          era = z div 146097;
          doe = z mod 146097;
          yoe = (doe - doe div 1460 + doe div 36524 - doe div 146096) div 365;
          doy = doe - (365 * yoe + yoe div 4 - yoe div 100);
          mp = (5 * doy + 2) div 153;
          dom = doy - (153 * mp + 2) div 5 + 1;
          m = (if mp < 10 then mp + 2 else mp - 10);
          y = yoe + era * 400 + (if m \<le> 1 then 1 else 0)
      in (y, m, dom))"

definition getFullYear :: "Zone \<Rightarrow> int \<Rightarrow> int" where
  "getFullYear z t = fst (civil (localDay z t))"

definition getMonth :: "Zone \<Rightarrow> int \<Rightarrow> int" where
  "getMonth z t = fst (snd (civil (localDay z t)))"

text \<open>\<^verbatim>\<open>getDay\<close>: 0 is Sunday; 1970-01-01 was a Thursday.\<close>

definition getDay :: "Zone \<Rightarrow> int \<Rightarrow> int" where
  "getDay z t = (localDay z t + 4) mod 7"

text \<open>
  date-fns is a dependency, not code of the repository; these follow its sources.
  \<^verbatim>\<open>startOfDay\<close> sets the local time to 00:00 (\<^verbatim>\<open>setHours(0, 0, 0, 0)\<close>); \<^verbatim>\<open>startOfWeek\<close>
  first steps back to the last day whose \<^verbatim>\<open>getDay\<close> is \<^verbatim>\<open>weekStartsOn\<close>; \<^verbatim>\<open>isSameDay\<close> and
  \<^verbatim>\<open>isSameWeek\<close> compare these starts; \<^verbatim>\<open>isSameMonth\<close> compares year and month.
\<close>

definition startOfDay :: "Zone \<Rightarrow> int \<Rightarrow> int" where
  "startOfDay z t = instantOf z (localDay z t * msPerDay)"

definition isSameDay :: "Zone \<Rightarrow> int \<Rightarrow> int \<Rightarrow> bool" where
  "isSameDay z a b = (startOfDay z a = startOfDay z b)"

definition startOfWeek :: "Zone \<Rightarrow> int \<Rightarrow> int \<Rightarrow> int" where
  "startOfWeek z weekStartsOn t =
     (let day = getDay z t;
          diff = (if day < weekStartsOn then 7 else 0) + day - weekStartsOn
      in instantOf z ((localDay z t - diff) * msPerDay))"

definition isSameWeek :: "Zone \<Rightarrow> int \<Rightarrow> int \<Rightarrow> int \<Rightarrow> bool" where
  "isSameWeek z weekStartsOn a b = (startOfWeek z weekStartsOn a = startOfWeek z weekStartsOn b)"

definition isSameMonth :: "Zone \<Rightarrow> int \<Rightarrow> int \<Rightarrow> bool" where
  "isSameMonth z a b = (getFullYear z a = getFullYear z b \<and> getMonth z a = getMonth z b)"

text \<open>
  \<^verbatim>\<open>differenceInDays\<close> counts full days between two Dates on the local clock.
  \<^verbatim>\<open>compareLocalAsc\<close> compares the local fields year, month, date, hours, minutes,
  seconds and milliseconds in that order, which is the order of the local readings.
  \<^verbatim>\<open>differenceInCalendarDays\<close> takes the start of the day of both Dates, reads each on the
  local clock (the timestamp less \<^verbatim>\<open>getTimezoneOffsetInMilliseconds\<close>) and rounds the
  difference in days with \<^verbatim>\<open>Math.round\<close>. The later Date is then moved back by that many
  days on the local clock (\<^verbatim>\<open>setDate\<close>), and one day is taken off when the last day is not
  full.
\<close>

definition compareLocalAsc :: "Zone \<Rightarrow> int \<Rightarrow> int \<Rightarrow> int" where
  "compareLocalAsc z a b = sgn (localTime z a - localTime z b)"

text \<open>\<^verbatim>\<open>Math.round(n / d)\<close> for a positive \<open>d\<close>: the floor of the quotient plus one half.\<close>

definition mathRound :: "int \<Rightarrow> int \<Rightarrow> int" where
  "mathRound n d = (2 * n + d) div (2 * d)"

definition differenceInCalendarDays :: "Zone \<Rightarrow> int \<Rightarrow> int \<Rightarrow> int" where
  "differenceInCalendarDays z a b =
     mathRound (localTime z (startOfDay z a) - localTime z (startOfDay z b)) msPerDay"

definition differenceInDays :: "Zone \<Rightarrow> int \<Rightarrow> int \<Rightarrow> int" where
  "differenceInDays z laterDate earlierDate =
     (let sign = compareLocalAsc z laterDate earlierDate;
          difference = \<bar>differenceInCalendarDays z laterDate earlierDate\<bar>;
          laterDate' = instantOf z (localTime z laterDate - sign * difference * msPerDay);
          isLastDayNotFull = (if compareLocalAsc z laterDate' earlierDate = - sign then 1 else 0)
      in sign * (difference - isLastDayNotFull))"

text \<open>
  The day keys. \<^verbatim>\<open>toISOString().split('T')[0]\<close> is the date \<^verbatim>\<open>YYYY-MM-DD\<close> of the instant
  in UTC, whatever the host's zone. For years 0000 to 9999 these strings are in one-to-one,
  order-preserving correspondence with the UTC day numbers, so a key is held as its day
  number: equal strings are equal numbers and the string order \<^verbatim>\<open>sort()\<close> uses is the
  order of the numbers. \<^verbatim>\<open>new Date(key)\<close> of a date-only string is midnight UTC of that day.
\<close>

definition toISODate :: "int \<Rightarrow> int" where
  "toISODate t = t div msPerDay"

definition newDate :: "int \<Rightarrow> int" where
  "newDate key = key * msPerDay"

section \<open>The stats memo of App.tsx\<close>

text \<open>\<^verbatim>\<open>new Set(xs)\<close> then \<^verbatim>\<open>Array.from\<close>: each element once, in order of first occurrence.\<close>

definition setFrom :: "'a list \<Rightarrow> 'a list" where
  "setFrom xs = foldl (\<lambda>acc x. if x \<in> set acc then acc else acc @ [x]) [] xs"

text \<open>\<^verbatim>\<open>xs.length > 0 ? Math.max(...xs) : 0\<close> and the same with \<^verbatim>\<open>Math.min\<close>.\<close>

definition maxOr0 :: "'a::{linorder,zero} list \<Rightarrow> 'a" where
  "maxOr0 xs = (case xs of [] \<Rightarrow> 0 | x # r \<Rightarrow> fold max r x)"

definition minOr0 :: "'a::{linorder,zero} list \<Rightarrow> 'a" where
  "minOr0 xs = (case xs of [] \<Rightarrow> 0 | x # r \<Rightarrow> fold min r x)"

definition validLogs :: "FlightLog list \<Rightarrow> FlightLog list" where
  "validLogs logs = filter (\<lambda>l. type l \<noteq> night) logs"

definition nightLogs :: "FlightLog list \<Rightarrow> FlightLog list" where
  "nightLogs logs = filter (\<lambda>l. type l = night) logs"

text \<open>
  \<^verbatim>\<open>[...xs].sort((a, b) => new Date(b.date).getTime() - new Date(a.date).getTime())\<close>:
  a stable sort, latest first.
\<close>

definition sortDesc :: "FlightLog list \<Rightarrow> FlightLog list" where
  "sortDesc xs = sort_key (\<lambda>l. - date l) xs"

definition sortedNightLogs :: "FlightLog list \<Rightarrow> FlightLog list" where
  "sortedNightLogs logs = sortDesc (nightLogs logs)"

definition sortedLogs :: "FlightLog list \<Rightarrow> FlightLog list" where
  "sortedLogs logs = sortDesc (validLogs logs)"

record Counts =
  today :: int
  week :: int
  month :: int
  year :: int
  total :: int

definition getCounts :: "Zone \<Rightarrow> int \<Rightarrow> FlightLog list \<Rightarrow> Counts" where
  "getCounts z now dataset =
     \<lparr> today = int (length (filter (\<lambda>l. isSameDay z (date l) now) dataset)),
       week = int (length (filter (\<lambda>l. isSameWeek z 1 (date l) now) dataset)),
       month = int (length (filter (\<lambda>l. isSameMonth z (date l) now) dataset)),
       year = int (length (filter (\<lambda>l. getFullYear z (date l) = getFullYear z now) dataset)),
       total = int (length dataset) \<rparr>"

definition sumHours :: "FlightLog list \<Rightarrow> rat" where
  "sumHours logList = foldl (\<lambda>acc curr. fadd acc (flightTime curr)) 0 logList"

definition uniqueDayStrings :: "FlightLog list \<Rightarrow> int list" where
  "uniqueDayStrings logs = rev (sort (setFrom (map (\<lambda>l. toISODate (date l)) (validLogs logs))))"

text \<open>
  The loop over \<^verbatim>\<open>uniqueDayStrings\<close> that fills \<^verbatim>\<open>streakLengths\<close>: the state is the index,
  the list pushed so far and \<^verbatim>\<open>currentStreakRun\<close>. \<open>streakLengths\<close> runs it from index 0
  with an empty list and a run of 0, and then pushes a run that is still open.
\<close>

function streakLoop :: "Zone \<Rightarrow> int list \<Rightarrow> nat \<Rightarrow> int list \<Rightarrow> int \<Rightarrow> int list \<times> int" where
  "streakLoop z days i pushed currentStreakRun =
     (if i < length days then
        (if currentStreakRun = 0 then streakLoop z days (i + 1) pushed 1
         else
           (let prevDate = newDate (days ! (i - 1));
                currDate = newDate (days ! i);
                diff = differenceInDays z prevDate currDate
            in if diff = 1 then streakLoop z days (i + 1) pushed (currentStreakRun + 1)
               else streakLoop z days (i + 1) (pushed @ [currentStreakRun]) 1))
      else (pushed, currentStreakRun))"
  by pat_completeness auto
termination
  by (relation "measure (\<lambda>(z, days, i, pushed, run). length days - i)") auto

definition streakLengths :: "Zone \<Rightarrow> int list \<Rightarrow> int list" where
  "streakLengths z days =
     (let (pushed, currentStreakRun) = streakLoop z days 0 [] 0
      in if currentStreakRun > 0 then pushed @ [currentStreakRun] else pushed)"

definition currentActiveStreak :: "Zone \<Rightarrow> int \<Rightarrow> int list \<Rightarrow> int list \<Rightarrow> int" where
  "currentActiveStreak z now days lengths =
     (if length days > 0 then
        (let lastFlightDate = newDate (days ! 0);
             diffFromNow = differenceInDays z now lastFlightDate
         in if diffFromNow \<le> 1 then (if length lengths > 0 then lengths ! 0 else 0) else 0)
      else 0)"

text \<open>The loop that fills \<^verbatim>\<open>restGaps\<close>, for \<open>i\<close> from 0 while \<^verbatim>\<open>i < uniqueDayStrings.length - 1\<close>.\<close>

function restLoop :: "Zone \<Rightarrow> int list \<Rightarrow> nat \<Rightarrow> int list \<Rightarrow> int list" where
  "restLoop z days i pushed =
     (if int i < int (length days) - 1 then
        (let newer = newDate (days ! i);
             older = newDate (days ! (i + 1));
             diff = differenceInDays z newer older;
             gap = diff - 1
         in if gap > 0 then restLoop z days (i + 1) (pushed @ [gap])
            else restLoop z days (i + 1) pushed)
      else pushed)"
  by pat_completeness auto
termination
  by (relation "measure (\<lambda>(z, days, i, pushed). length days - i)") auto

definition restGaps :: "Zone \<Rightarrow> int list \<Rightarrow> int list" where
  "restGaps z days = restLoop z days 0 []"

text \<open>
  The memo itself. Its two ambient inputs are parameters: \<open>now\<close>, which the source reads
  with \<^verbatim>\<open>new Date()\<close>, and the host's zone \<open>z\<close>. The specification calls this function
  \<^verbatim>\<open>computeStats(logs, now)\<close>.
\<close>

definition stats :: "Zone \<Rightarrow> int \<Rightarrow> FlightLog list \<Rightarrow> FlightStats" where
  "stats z now logs =
     (let currentYear = getFullYear z now;
          allCounts = getCounts z now (sortedLogs logs);
          soloCounts = getCounts z now (filter (\<lambda>l. type l = single) (sortedLogs logs));
          multiCounts = getCounts z now (filter (\<lambda>l. type l = multi) (sortedLogs logs));
          totalHours = sumHours (validLogs logs);
          durations = map flightTime (validLogs logs);
          days = uniqueDayStrings logs;
          lengths = streakLengths z days;
          validStreaks = filter (\<lambda>s. s > 0) lengths;
          gaps = restGaps z days
      in \<lparr> flightsToday = today allCounts,
           flightsThisWeek = week allCounts,
           flightsThisYear = year allCounts,
           flightsThisMonth = month allCounts,
           hoursToday = sumHours (filter (\<lambda>l. isSameDay z (date l) now) (sortedLogs logs)),
           hoursThisWeek = sumHours (filter (\<lambda>l. isSameWeek z 1 (date l) now) (sortedLogs logs)),
           hoursThisMonth = sumHours (filter (\<lambda>l. isSameMonth z (date l) now) (sortedLogs logs)),
           hoursThisYear =
             sumHours (filter (\<lambda>l. getFullYear z (date l) = currentYear) (sortedLogs logs)),
           soloFlightsToday = today soloCounts,
           soloFlightsThisWeek = week soloCounts,
           soloFlightsThisMonth = month soloCounts,
           soloFlightsThisYear = year soloCounts,
           multiFlightsToday = today multiCounts,
           multiFlightsThisWeek = week multiCounts,
           multiFlightsThisMonth = month multiCounts,
           multiFlightsThisYear = year multiCounts,
           daysSinceLastFlight =
             (if length (sortedLogs logs) > 0
              then differenceInDays z now (date (sortedLogs logs ! 0)) else 0),
           consecutiveDays = currentActiveStreak z now days lengths,
           maxStreak = maxOr0 lengths,
           minStreak = minOr0 validStreaks,
           streakBreaks = max 0 (int (length validStreaks) - 1),
           maxRestStreak = maxOr0 gaps,
           minRestStreak = minOr0 gaps,
           restBreaks = int (length lengths),
           totalFlights = total allCounts,
           totalSoloFlights = total soloCounts,
           totalMultiFlights = total multiCounts,
           totalHours = totalHours,
           avgDuration =
             (if length (validLogs logs) > 0
              then fdiv totalHours (of_nat (length (validLogs logs))) else 0),
           maxDuration = maxOr0 durations,
           minDuration = minOr0 durations,
           totalNightFlights = int (length (nightLogs logs)),
           daysSinceLastIncident =
             (if length (sortedNightLogs logs) > 0
              then differenceInDays z now (date (sortedNightLogs logs ! 0)) else - 1) \<rparr>)"

section \<open>The specification's runs and gaps\<close>

text \<open>
  The specification describes the streaks as the maximal runs of consecutive days in the
  descending list of unique days, and the rest gaps as the positive values of the
  difference minus one over adjacent pairs. These definitions follow those words; the
  loops above are compared with them. \<open>runs\<close> cuts a list wherever the difference of two
  neighbours is not exactly 1; \<open>maximalRuns\<close> says what such a cut is: the runs
  concatenate to the list, each is non-empty with neighbours exactly one day apart, and
  no two adjacent runs could be joined.
\<close>

fun runs :: "int list \<Rightarrow> int list list" where
  "runs [] = []"
| "runs [d] = [[d]]"
| "runs (d # e # ds) =
     (if d - e = 1
      then (case runs (e # ds) of [] \<Rightarrow> [[d]] | r # rs \<Rightarrow> (d # r) # rs)
      else [d] # runs (e # ds))"

definition consecutive :: "int list \<Rightarrow> bool" where
  "consecutive r = list_all (\<lambda>(newer, older). newer - older = 1) (zip r (tl r))"

definition maximalRuns :: "int list \<Rightarrow> int list list \<Rightarrow> bool" where
  "maximalRuns ds rs =
     (concat rs = ds \<and> list_all (\<lambda>r. r \<noteq> [] \<and> consecutive r) rs \<and>
      list_all (\<lambda>(r1, r2). last r1 - hd r2 \<noteq> 1) (zip rs (tl rs)))"

definition gapsOf :: "int list \<Rightarrow> int list" where
  "gapsOf ds =
     filter (\<lambda>gap. gap > 0) (map (\<lambda>(newer, older). newer - older - 1) (zip ds (tl ds)))"

text \<open>
  What the memo itself measures between two day keys is \<open>keyDiff\<close>: the full days that
  \<^verbatim>\<open>differenceInDays\<close> finds between their UTC midnights on the local clock. \<open>runsBy\<close> and
  \<open>gapsBy\<close> are the cut and the gaps for any such measure; with the difference of the day
  numbers they are \<open>runs\<close> and \<open>gapsOf\<close>.
\<close>

definition keyDiff :: "Zone \<Rightarrow> int \<Rightarrow> int \<Rightarrow> int" where
  "keyDiff z newer older = differenceInDays z (newDate newer) (newDate older)"

fun runsBy :: "(int \<Rightarrow> int \<Rightarrow> bool) \<Rightarrow> int list \<Rightarrow> int list list" where
  "runsBy adj [] = []"
| "runsBy adj [d] = [[d]]"
| "runsBy adj (d # e # ds) =
     (if adj d e
      then (case runsBy adj (e # ds) of [] \<Rightarrow> [[d]] | r # rs \<Rightarrow> (d # r) # rs)
      else [d] # runsBy adj (e # ds))"

definition gapsBy :: "(int \<Rightarrow> int \<Rightarrow> int) \<Rightarrow> int list \<Rightarrow> int list" where
  "gapsBy diff ds =
     filter (\<lambda>gap. gap > 0) (map (\<lambda>(newer, older). diff newer older - 1) (zip ds (tl ds)))"

text \<open>
  Two devices for the proofs: the streak loop as a recursion over the days that remain,
  carrying the previous day, and the final push of the run that is still open.
\<close>

fun streakWalk ::
  "(int \<Rightarrow> int \<Rightarrow> bool) \<Rightarrow> int \<Rightarrow> int list \<Rightarrow> int list \<Rightarrow> int \<Rightarrow> int list \<times> int" where
  "streakWalk adj prev [] pushed run = (pushed, run)"
| "streakWalk adj prev (c # cs) pushed run =
     (if adj prev c then streakWalk adj c cs pushed (run + 1)
      else streakWalk adj c cs (pushed @ [run]) 1)"

definition finish :: "int list \<times> int \<Rightarrow> int list" where
  "finish st = (case st of (pushed, run) \<Rightarrow> if run > 0 then pushed @ [run] else pushed)"

text \<open>The local day on which the Monday-to-Sunday week of a local day begins.\<close>

definition weekStartDay :: "int \<Rightarrow> int" where
  "weekStartDay d = d - (d + 3) mod 7"

text \<open>The fields of a log entry that the memo reads.\<close>

definition readFields :: "FlightLog \<Rightarrow> int \<times> FlightType \<times> rat" where
  "readFields l = (date l, type l, flightTime l)"

text \<open>A log entry with the fields the memo never reads left empty, for the examples.\<close>

abbreviation entry :: "int \<Rightarrow> FlightType \<Rightarrow> rat \<Rightarrow> FlightLog" where
  "entry d t h \<equiv> \<lparr> logId = [], date = d, type = t, flightTime = h,
     ratings = \<lparr> preFlight = 0, inFlight = 0, postFlight = 0 \<rparr>, mood = None,
     logNotes = [], createdAt = 0 \<rparr>"

text \<open>An entry stripped of the fields the memo never reads.\<close>

definition bare :: "FlightLog \<Rightarrow> FlightLog" where
  "bare l = entry (date l) (type l) (flightTime l)"

declare streakLoop.simps [simp del] restLoop.simps [simp del]

section \<open>Basic facts about the memo's helpers\<close>

lemma streakLengths_Nil: "streakLengths z [] = []"
  by (simp add: streakLengths_def streakLoop.simps)

lemma restGaps_Nil: "restGaps z [] = []"
  by (simp add: restGaps_def restLoop.simps)

lemma sumHours_Nil: "sumHours [] = 0"
  by (simp add: sumHours_def)

lemma getCounts_Nil:
  "getCounts z now [] = \<lparr> today = 0, week = 0, month = 0, year = 0, total = 0 \<rparr>"
  by (simp add: getCounts_def)

lemma length_sortDesc: "length (sortDesc xs) = length xs"
  by (simp add: sortDesc_def)

lemma set_sortDesc: "set (sortDesc xs) = set xs"
  by (simp add: sortDesc_def)

lemma solo_multi_split:
  "\<forall>l \<in> set xs. type l \<noteq> night \<Longrightarrow>
   length (filter (\<lambda>l. type l = single) xs) + length (filter (\<lambda>l. type l = multi) xs)
     = length xs"
proof (induction xs)
  case Nil
  then show ?case by simp
next
  case (Cons x xs)
  then show ?case by (cases "type x") auto
qed

lemma valid_night_split: "length (validLogs logs) + length (nightLogs logs) = length logs"
  unfolding validLogs_def nightLogs_def
  by (induction logs) auto

lemma totalFlights_eq: "totalFlights (stats z now logs) = int (length (validLogs logs))"
  by (simp add: stats_def Let_def getCounts_def sortedLogs_def length_sortDesc)

section \<open>A zone with a fixed offset\<close>

text \<open>
  On a host whose offset never changes the date functions are plain arithmetic on the
  instants shifted by the offset.
\<close>

lemma localTime_fixed: "localTime (fixedZone c) t = t + c"
  by (simp add: localTime_def fixedZone_def)

lemma instantOf_fixed: "instantOf (fixedZone c) w = w - c"
  by (simp add: fixedZone_def)

lemma localDay_fixed: "localDay (fixedZone c) t = (t + c) div msPerDay"
  by (simp add: localDay_def localTime_fixed)

lemma startOfDay_fixed: "startOfDay (fixedZone c) t = localDay (fixedZone c) t * msPerDay - c"
  by (simp add: startOfDay_def instantOf_fixed)

lemma startOfWeek_fixed:
  "startOfWeek (fixedZone c) weekStartsOn t =
     (let day = getDay (fixedZone c) t;
          diff = (if day < weekStartsOn then 7 else 0) + day - weekStartsOn
      in (localDay (fixedZone c) t - diff) * msPerDay - c)"
  by (simp add: startOfWeek_def instantOf_fixed)

lemma compareLocalAsc_fixed: "compareLocalAsc (fixedZone c) a b = sgn ((a + c) - (b + c))"
  by (simp add: compareLocalAsc_def localTime_fixed)

lemma mathRound_multiple: "mathRound (k * msPerDay) msPerDay = k"
proof -
  have "2 * (k * 86400000) + 86400000 = (172800000::int) * k + 86400000" by simp
  then show ?thesis unfolding mathRound_def msPerDay_def by (simp only:) simp
qed

lemma differenceInCalendarDays_fixed:
  "differenceInCalendarDays (fixedZone c) a b = localDay (fixedZone c) a - localDay (fixedZone c) b"
proof -
  have "localTime (fixedZone c) (startOfDay (fixedZone c) a)
          - localTime (fixedZone c) (startOfDay (fixedZone c) b)
        = (localDay (fixedZone c) a - localDay (fixedZone c) b) * msPerDay"
    by (simp add: localTime_fixed startOfDay_fixed algebra_simps)
  then show ?thesis by (simp only: differenceInCalendarDays_def mathRound_multiple)
qed

lemma differenceInDays_fixed:
  "differenceInDays (fixedZone c) laterDate earlierDate =
     (let sign = sgn ((laterDate + c) - (earlierDate + c));
          difference = \<bar>(laterDate + c) div msPerDay - (earlierDate + c) div msPerDay\<bar>;
          laterDate' = laterDate - sign * difference * msPerDay;
          isLastDayNotFull = (if sgn ((laterDate' + c) - (earlierDate + c)) = - sign then 1 else 0)
      in sign * (difference - isLastDayNotFull))"
  by (simp add: differenceInDays_def compareLocalAsc_fixed differenceInCalendarDays_fixed
      localDay_fixed localTime_fixed instantOf_fixed Let_def)

section \<open>Whole days between two instants\<close>

text \<open>
  With a fixed offset the full days of \<^verbatim>\<open>differenceInDays\<close> are the difference of the
  instants divided by a day, truncated towards zero; between the midnights of two day keys
  that is the difference of the day numbers. Where the offset changes between the two
  midnights this is no longer so: see \<open>keyDiff_newYork\<close> below.
\<close>

lemma fullDays_core:
  fixes x y :: int
  assumes "y < x"
  shows "sgn (x - y) * (\<bar>x div 86400000 - y div 86400000\<bar> -
           (if sgn (x - sgn (x - y) * \<bar>x div 86400000 - y div 86400000\<bar> * 86400000 - y) = - sgn (x - y)
            then 1 else 0)) = (x - y) div 86400000"
proof -
  have s: "sgn (x - y) = 1" using assms by simp
  have d: "\<bar>x div 86400000 - y div 86400000\<bar> = x div 86400000 - y div 86400000"
    using assms by simp
  show ?thesis
    unfolding s d using assms
    by (simp add: sgn_if; arith)
qed

lemma fullDays_core_neg:
  fixes x y :: int
  assumes "x < y"
  shows "sgn (x - y) * (\<bar>x div 86400000 - y div 86400000\<bar> -
           (if sgn (x - sgn (x - y) * \<bar>x div 86400000 - y div 86400000\<bar> * 86400000 - y) = - sgn (x - y)
            then 1 else 0)) = - ((y - x) div 86400000)"
proof -
  have s: "sgn (x - y) = - 1" using assms by simp
  have d: "\<bar>x div 86400000 - y div 86400000\<bar> = y div 86400000 - x div 86400000"
    using assms by simp
  show ?thesis
    unfolding s d using assms
    by (simp add: sgn_if; arith)
qed

lemma differenceInDays_trunc:
  "differenceInDays (fixedZone tz) a b =
     (if b \<le> a then (a - b) div msPerDay else - ((b - a) div msPerDay))"
proof -
  have e1: "a + tz - (b + tz) = a - b" and e2: "b + tz - (a + tz) = b - a" by simp_all
  have e3: "\<And>k. a - k + tz - (b + tz) = a + tz - k - (b + tz)" by simp
  consider "b < a" | "a = b" | "a < b" by linarith
  then show ?thesis
  proof cases
    case 1
    then have "b + tz < a + tz" by simp
    from fullDays_core [OF this]
    have "differenceInDays (fixedZone tz) a b = (a - b) div msPerDay"
      unfolding differenceInDays_fixed msPerDay_def Let_def e3
      by (simp only: e1 e2)
    with 1 show ?thesis by simp
  next
    case 2
    then show ?thesis
      unfolding differenceInDays_fixed msPerDay_def Let_def
      by simp
  next
    case 3
    then have "a + tz < b + tz" by simp
    from fullDays_core_neg [OF this]
    have "differenceInDays (fixedZone tz) a b = - ((b - a) div msPerDay)"
      unfolding differenceInDays_fixed msPerDay_def Let_def e3
      by (simp only: e1 e2)
    with 3 show ?thesis by simp
  qed
qed

lemma differenceInDays_newDate: "differenceInDays (fixedZone tz) (newDate d) (newDate e) = d - e"
  unfolding differenceInDays_trunc newDate_def msPerDay_def
  by (simp; arith)

lemma keyDiff_fixed: "keyDiff (fixedZone tz) d e = d - e"
  by (simp add: keyDiff_def differenceInDays_newDate)

section \<open>The loops compute the runs and the gaps\<close>

text \<open>
  For every zone: the streak loop cuts the day keys wherever \<open>keyDiff\<close> of two neighbours is
  not 1, and the gap loop keeps the positive values of \<open>keyDiff\<close> minus one.
\<close>

lemma streakLoop_walk:
  "0 < i \<Longrightarrow> i \<le> length days \<Longrightarrow> 0 < run \<Longrightarrow>
   streakLoop z days i pushed run =
     streakWalk (\<lambda>d e. keyDiff z d e = 1) (days ! (i - 1)) (drop i days) pushed run"
proof (induction z days i pushed run rule: streakLoop.induct)
  case (1 z days i pushed run)
  show ?case
  proof (cases "i < length days")
    case False
    with "1.prems" show ?thesis by (subst streakLoop.simps) simp
  next
    case True
    then have dr: "drop i days = days ! i # drop (Suc i) days"
      by (simp add: Cons_nth_drop_Suc)
    show ?thesis
    proof (cases "keyDiff z (days ! (i - 1)) (days ! i) = 1")
      case c: True
      have "streakLoop z days i pushed run = streakLoop z days (i + 1) pushed (run + 1)"
        using True "1.prems" c by (subst streakLoop.simps) (simp add: keyDiff_def)
      also have "\<dots> = streakWalk (\<lambda>d e. keyDiff z d e = 1) (days ! i) (drop (i + 1) days)
                          pushed (run + 1)"
        using "1.IH"(2) [OF True _ refl refl refl] True "1.prems" c
        by (simp add: keyDiff_def)
      finally show ?thesis using c by (simp add: dr)
    next
      case c: False
      have "streakLoop z days i pushed run = streakLoop z days (i + 1) (pushed @ [run]) 1"
        using True "1.prems" c by (subst streakLoop.simps) (simp add: keyDiff_def)
      also have "\<dots> = streakWalk (\<lambda>d e. keyDiff z d e = 1) (days ! i) (drop (i + 1) days)
                          (pushed @ [run]) 1"
        using "1.IH"(3) [OF True _ refl refl refl] True "1.prems" c
        by (simp add: keyDiff_def)
      finally show ?thesis using c by (simp add: dr)
    qed
  qed
qed

lemma runsBy_Cons_neq_Nil: "runsBy adj (d # ds) \<noteq> []"
  by (cases ds) (auto split: list.splits)

lemma streakWalk_runsBy:
  "0 < run \<Longrightarrow>
   finish (streakWalk adj prev cs pushed run) =
     pushed @ (case runsBy adj (prev # cs) of [] \<Rightarrow> [] | first # rest \<Rightarrow>
                 (run - 1 + int (length first)) # map (\<lambda>r. int (length r)) rest)"
proof (induction cs arbitrary: prev pushed run)
  case Nil
  then show ?case by (simp add: finish_def)
next
  case (Cons c cs)
  obtain r rs where rr: "runsBy adj (c # cs) = r # rs"
    using runsBy_Cons_neq_Nil [of adj c cs] by (cases "runsBy adj (c # cs)") auto
  show ?case
  proof (cases "adj prev c")
    case True
    with Cons.IH [of "run + 1" c pushed] Cons.prems rr show ?thesis by simp
  next
    case False
    with Cons.IH [of 1 c "pushed @ [run]"] Cons.prems rr show ?thesis by simp
  qed
qed

lemma streakLengths_runsBy:
  "streakLengths z days = map (\<lambda>r. int (length r)) (runsBy (\<lambda>d e. keyDiff z d e = 1) days)"
proof (cases days)
  case Nil
  then show ?thesis by (simp add: streakLengths_Nil)
next
  case (Cons d ds)
  let ?adj = "\<lambda>d e. keyDiff z d e = 1"
  have "streakLoop z days 0 [] 0 = streakLoop z days 1 [] 1"
    using Cons by (subst streakLoop.simps) simp
  also have "\<dots> = streakWalk ?adj d ds [] 1"
    using Cons streakLoop_walk [of 1 days 1 z "[]"] by simp
  finally have "streakLengths z days = finish (streakWalk ?adj d ds [] 1)"
    by (simp add: streakLengths_def finish_def split: prod.splits)
  also have "\<dots> = map (\<lambda>r. int (length r)) (runsBy ?adj days)"
    using streakWalk_runsBy [of 1 ?adj d ds "[]"] Cons runsBy_Cons_neq_Nil [of ?adj d ds]
    by (simp split: list.splits)
  finally show ?thesis .
qed

lemma gapsBy_step:
  "gapsBy diff (a # b # ds) =
     (if diff a b - 1 > 0 then [diff a b - 1] else []) @ gapsBy diff (b # ds)"
  by (simp add: gapsBy_def)

lemma gapsBy_short: "length ds \<le> 1 \<Longrightarrow> gapsBy diff ds = []"
  by (cases ds) (auto simp: gapsBy_def)

lemma restLoop_gapsBy:
  "restLoop z days i pushed = pushed @ gapsBy (keyDiff z) (drop i days)"
proof (induction z days i pushed rule: restLoop.induct)
  case (1 z days i pushed)
  show ?case
  proof (cases "int i < int (length days) - 1")
    case False
    then have "length (drop i days) \<le> 1" by simp
    then have "gapsBy (keyDiff z) (drop i days) = []" by (rule gapsBy_short)
    with False show ?thesis by (subst restLoop.simps) simp
  next
    case True
    then have lt: "i < length days" "Suc i < length days" by simp_all
    let ?g = "keyDiff z (days ! i) (days ! Suc i) - 1"
    have kd: "differenceInDays z (newDate (days ! i)) (newDate (days ! Suc i))
               = keyDiff z (days ! i) (days ! Suc i)"
      by (simp add: keyDiff_def)
    have dr: "drop i days = days ! i # drop (Suc i) days"
      using lt by (simp add: Cons_nth_drop_Suc)
    have dr': "drop (Suc i) days = days ! Suc i # drop (Suc (Suc i)) days"
      using lt by (simp add: Cons_nth_drop_Suc)
    have "gapsBy (keyDiff z) (days ! i # days ! Suc i # drop (Suc (Suc i)) days) =
            (if ?g > 0 then [?g] else [])
              @ gapsBy (keyDiff z) (days ! Suc i # drop (Suc (Suc i)) days)"
      by (rule gapsBy_step)
    then have st: "gapsBy (keyDiff z) (drop i days) =
        (if ?g > 0 then [?g] else []) @ gapsBy (keyDiff z) (drop (Suc i) days)"
      using dr dr' by simp
    show ?thesis
    proof (cases "?g > 0")
      case g: True
      have "restLoop z days i pushed = restLoop z days (i + 1) (pushed @ [?g])"
        using True g by (subst restLoop.simps) (simp add: kd Let_def)
      also have "\<dots> = (pushed @ [?g]) @ gapsBy (keyDiff z) (drop (i + 1) days)"
        using "1.IH"(1) [OF True refl refl refl refl] g
        by (simp add: kd)
      finally show ?thesis using g st by simp
    next
      case g: False
      have "restLoop z days i pushed = restLoop z days (i + 1) pushed"
        using True g by (subst restLoop.simps) (simp add: kd Let_def)
      also have "\<dots> = pushed @ gapsBy (keyDiff z) (drop (i + 1) days)"
        using "1.IH"(2) [OF True refl refl refl refl] g
        by (simp add: kd)
      finally show ?thesis using g st by simp
    qed
  qed
qed

lemma restGaps_gapsBy: "restGaps z days = gapsBy (keyDiff z) days"
  by (simp add: restGaps_def restLoop_gapsBy)

text \<open>With a fixed offset these are the runs and the gaps of the specification.\<close>

lemma runsBy_difference: "runsBy (\<lambda>d e. d - e = 1) ds = runs ds"
  by (induction ds rule: runs.induct) simp_all

lemma streakLengths_runs:
  "streakLengths (fixedZone tz) days = map (\<lambda>r. int (length r)) (runs days)"
  by (simp add: streakLengths_runsBy keyDiff_fixed runsBy_difference)

lemma restGaps_gapsOf: "restGaps (fixedZone tz) days = gapsOf days"
proof -
  have "keyDiff (fixedZone tz) = (\<lambda>d e. d - e)" by (intro ext) (simp add: keyDiff_fixed)
  then show ?thesis by (simp add: restGaps_gapsBy gapsBy_def gapsOf_def)
qed

lemma runs_Cons_neq_Nil: "runs (d # ds) \<noteq> []"
  by (cases ds) (auto split: list.splits)

lemma runs_eq_Nil: "runs ds = [] \<longleftrightarrow> ds = []"
  by (cases ds) (auto simp: runs_Cons_neq_Nil)

lemma setFrom_foldl:
  "distinct acc \<Longrightarrow>
   distinct (foldl (\<lambda>acc x. if x \<in> set acc then acc else acc @ [x]) acc xs) \<and>
   set (foldl (\<lambda>acc x. if x \<in> set acc then acc else acc @ [x]) acc xs) = set acc \<union> set xs"
  by (induction xs arbitrary: acc) auto

lemma distinct_setFrom: "distinct (setFrom xs)"
  using setFrom_foldl [of "[]" xs] by (simp add: setFrom_def)

lemma set_setFrom: "set (setFrom xs) = set xs"
  using setFrom_foldl [of "[]" xs] by (simp add: setFrom_def)

lemma uniqueDayStrings_eq:
  "uniqueDayStrings logs =
     rev (sorted_list_of_set ((\<lambda>l. toISODate (date l)) ` set (validLogs logs)))"
proof -
  let ?ks = "map (\<lambda>l. toISODate (date l)) (validLogs logs)"
  have "sort (setFrom ?ks) = sorted_list_of_set (set (setFrom ?ks))"
    by (rule sorted_distinct_set_unique)
       (simp_all add: distinct_setFrom)
  then show ?thesis by (simp add: uniqueDayStrings_def set_setFrom)
qed

lemma maxOr0_Max: "xs \<noteq> [] \<Longrightarrow> maxOr0 xs = Max (set xs)"
  by (cases xs) (simp_all add: maxOr0_def Max.set_eq_fold [symmetric])

lemma minOr0_Min: "xs \<noteq> [] \<Longrightarrow> minOr0 xs = Min (set xs)"
  by (cases xs) (simp_all add: minOr0_def Min.set_eq_fold [symmetric])

lemma maxOr0_Nil: "maxOr0 [] = 0" by (simp add: maxOr0_def)
lemma minOr0_Nil: "minOr0 [] = 0" by (simp add: minOr0_def)

lemma runs_hd: "runs (d # ds) = r # rs \<Longrightarrow> \<exists>r'. r = d # r'"
  by (cases ds) (auto split: if_splits list.splits)

lemma concat_runs: "concat (runs ds) = ds"
  by (induction ds rule: runs.induct) (auto split: list.splits)

lemma consecutive_Cons: "consecutive (d # e # r) \<longleftrightarrow> d - e = 1 \<and> consecutive (e # r)"
  by (simp add: consecutive_def)

lemma consecutive_single: "consecutive [d]"
  by (simp add: consecutive_def)

lemma runs_consecutive: "list_all (\<lambda>r. r \<noteq> [] \<and> consecutive r) (runs ds)"
proof (induction ds rule: runs.induct)
  case 1
  then show ?case by simp
next
  case (2 d)
  then show ?case by (simp add: consecutive_single)
next
  case (3 d e ds)
  obtain r rs where rr: "runs (e # ds) = r # rs"
    using runs_Cons_neq_Nil [of e ds] by (cases "runs (e # ds)") auto
  then obtain r' where r: "r = e # r'" using runs_hd by blast
  from 3 rr r show ?case
    by (auto simp: consecutive_Cons consecutive_single)
qed

lemma runs_boundaries:
  "list_all (\<lambda>(r1, r2). last r1 - hd r2 \<noteq> 1) (zip (runs ds) (tl (runs ds)))"
proof (induction ds rule: runs.induct)
  case 1
  then show ?case by simp
next
  case (2 d)
  then show ?case by simp
next
  case (3 d e ds)
  obtain r rs where rr: "runs (e # ds) = r # rs"
    using runs_Cons_neq_Nil [of e ds] by (cases "runs (e # ds)") auto
  then obtain r' where r: "r = e # r'" using runs_hd by blast
  from 3 rr r show ?case
    by (cases rs) auto
qed

lemma maximalRuns_runs: "maximalRuns ds (runs ds)"
  by (simp add: maximalRuns_def concat_runs runs_consecutive runs_boundaries)

lemma maximalRuns_unique: "maximalRuns ds rs \<Longrightarrow> rs = runs ds"
proof (induction ds arbitrary: rs rule: runs.induct)
  case 1
  then show ?case
    by (cases rs) (auto simp: maximalRuns_def)
next
  case (2 d)
  then obtain r rs' where rs: "rs = r # rs'" by (cases rs) (auto simp: maximalRuns_def)
  with 2 have r: "r \<noteq> []" and c: "r @ concat rs' = [d]" and a: "list_all (\<lambda>r. r \<noteq> []) rs'"
    by (auto simp: maximalRuns_def list_all_iff)
  from r c have "r = [d]" "concat rs' = []" by (cases r; simp)+
  with a have "rs' = []" by (cases rs') auto
  with \<open>r = [d]\<close> rs show ?case by simp
next
  case (3 d e ds)
  from "3.prems" obtain r rs' where rs: "rs = r # rs'"
    by (cases rs) (auto simp: maximalRuns_def)
  from "3.prems" rs have r: "r \<noteq> []" "consecutive r" and c: "r @ concat rs' = d # e # ds"
    and a: "list_all (\<lambda>r. r \<noteq> [] \<and> consecutive r) rs'"
    and b: "list_all (\<lambda>(r1, r2). last r1 - hd r2 \<noteq> 1) (zip (r # rs') rs')"
    by (auto simp: maximalRuns_def)
  from r c obtain r' where r': "r = d # r'" by (cases r) auto
  show ?case
  proof (cases r')
    case Nil
    with c r' have cc: "concat rs' = e # ds" by simp
    then obtain r2 rs'' where rs': "rs' = r2 # rs''" by (cases rs') auto
    with a have "r2 \<noteq> []" by simp
    with cc rs' have "hd r2 = e" by (cases r2) auto
    with b rs' r' Nil have ne: "d - e \<noteq> 1" by simp
    have "maximalRuns (e # ds) rs'"
      using a b cc rs' by (simp add: maximalRuns_def)
    with "3.IH"(2) ne have "rs' = runs (e # ds)" by simp
    with ne rs r' Nil show ?thesis by simp
  next
    case (Cons e' r'')
    with c r' have e': "e' = e" and cc: "r'' @ concat rs' = ds" by simp_all
    from r(2) r' Cons e' have d1: "d - e = 1" and ce: "consecutive (e # r'')"
      by (simp_all add: consecutive_Cons)
    have bb: "list_all (\<lambda>(r1, r2). last r1 - hd r2 \<noteq> 1) (zip ((e # r'') # rs') rs')"
      using b r' Cons e' by (cases rs') simp_all
    have "maximalRuns (e # ds) ((e # r'') # rs')"
      using a bb cc ce by (simp add: maximalRuns_def)
    with "3.IH"(1) d1 have "runs (e # ds) = (e # r'') # rs'" by simp
    then have "runs (d # e # ds) = (d # e # r'') # rs'"
      using d1 by (simp only: runs.simps(3) list.case) simp
    with rs r' Cons e' show ?thesis by simp
  qed
qed

lemma runs_lengths_pos: "filter (\<lambda>n. n > 0) (map (\<lambda>r. int (length r)) (runs ds)) = map (\<lambda>r. int (length r)) (runs ds)"
proof -
  have "\<forall>r \<in> set (runs ds). r \<noteq> []"
    using runs_consecutive [of ds] by (auto simp: list_all_iff)
  then show ?thesis by (auto simp: filter_id_conv)
qed

lemma stats_streak_fields:
  "maxStreak (stats z now logs) = maxOr0 (streakLengths z (uniqueDayStrings logs))"
  "minStreak (stats z now logs) =
     minOr0 (filter (\<lambda>s. s > 0) (streakLengths z (uniqueDayStrings logs)))"
  "streakBreaks (stats z now logs) =
     max 0 (int (length (filter (\<lambda>s. s > 0) (streakLengths z (uniqueDayStrings logs)))) - 1)"
  "consecutiveDays (stats z now logs) =
     currentActiveStreak z now (uniqueDayStrings logs) (streakLengths z (uniqueDayStrings logs))"
  "maxRestStreak (stats z now logs) = maxOr0 (restGaps z (uniqueDayStrings logs))"
  "minRestStreak (stats z now logs) = minOr0 (restGaps z (uniqueDayStrings logs))"
  "restBreaks (stats z now logs) = int (length (streakLengths z (uniqueDayStrings logs)))"
  by (simp_all add: stats_def Let_def)

lemma maxOr0_eq: "maxOr0 xs = (if xs = [] then 0 else Max (set xs))"
  by (simp add: maxOr0_Nil maxOr0_Max)

lemma minOr0_eq: "minOr0 xs = (if xs = [] then 0 else Min (set xs))"
  by (simp add: minOr0_Nil minOr0_Min)

lemma currentActiveStreak_runs:
  "ds \<noteq> [] \<Longrightarrow>
   currentActiveStreak z now ds (map (\<lambda>r. int (length r)) (runs ds)) =
     (if differenceInDays z now (newDate (hd ds)) \<le> 1 then int (length (hd (runs ds))) else 0)"
  by (cases ds; cases "runs ds")
     (auto simp: currentActiveStreak_def Let_def runs_eq_Nil hd_conv_nth)

lemma hd_runs_nonempty: "ds \<noteq> [] \<Longrightarrow> hd (runs ds) \<noteq> []"
proof -
  assume "ds \<noteq> []"
  then obtain d ds' where ds: "ds = d # ds'" by (cases ds) auto
  then obtain r rs where "runs ds = r # rs"
    using runs_Cons_neq_Nil [of d ds'] by (cases "runs ds") auto
  moreover then obtain r' where "r = d # r'" using runs_hd ds by blast
  ultimately show ?thesis by simp
qed

section \<open>Activity streaks\<close>

text \<open>
  For every zone the streak fields are those of the cut of the descending unique day keys
  at every pair of neighbours whose \<open>keyDiff\<close> is not exactly 1, and the rest gaps are the
  positive values of \<open>keyDiff\<close> minus one.
\<close>

lemma streaks_any_zone:
  "let ds = uniqueDayStrings logs; s = stats z now logs;
       lens = map (\<lambda>r. int (length r)) (runsBy (\<lambda>d e. keyDiff z d e = 1) ds);
       gaps = gapsBy (keyDiff z) ds
   in ds = rev (sorted_list_of_set ((\<lambda>l. toISODate (date l)) ` set (validLogs logs))) \<and>
      maxStreak s = maxOr0 lens \<and>
      minStreak s = minOr0 (filter (\<lambda>n. n > 0) lens) \<and>
      streakBreaks s = max 0 (int (length (filter (\<lambda>n. n > 0) lens)) - 1) \<and>
      consecutiveDays s = currentActiveStreak z now ds lens \<and>
      maxRestStreak s = maxOr0 gaps \<and>
      minRestStreak s = minOr0 gaps \<and>
      restBreaks s = int (length lens)"
  unfolding Let_def
  by (simp only: stats_streak_fields streakLengths_runsBy restGaps_gapsBy uniqueDayStrings_eq
      length_map simp_thms)

text \<open>
  On a host whose offset never changes, \<open>keyDiff\<close> is the difference of the day numbers,
  and the fields are those of the specification's maximal runs of consecutive days.
\<close>

lemma activity_streaks_fixed_offset:
  "let ds = uniqueDayStrings logs; rs = runs ds; s = stats (fixedZone tz) now logs;
       lens = map (\<lambda>r. int (length r)) rs; pos = filter (\<lambda>n. n > 0) lens
   in ds = rev (sorted_list_of_set ((\<lambda>l. toISODate (date l)) ` set (validLogs logs))) \<and>
      maximalRuns ds rs \<and> (\<forall>rs'. maximalRuns ds rs' \<longrightarrow> rs' = rs) \<and>
      maxStreak s = (if lens = [] then 0 else Max (set lens)) \<and>
      minStreak s = (if pos = [] then 0 else Min (set pos)) \<and>
      streakBreaks s = max 0 (int (length pos) - 1) \<and>
      (ds = [] \<longrightarrow> consecutiveDays s = 0) \<and>
      (ds \<noteq> [] \<longrightarrow>
         ((consecutiveDays s = int (length (hd rs))) =
            (differenceInDays (fixedZone tz) now (newDate (hd ds)) \<le> 1)) \<and>
         (\<not> differenceInDays (fixedZone tz) now (newDate (hd ds)) \<le> 1 \<longrightarrow>
            consecutiveDays s = 0)) \<and>
      (ds = [D, D - 1, D - 2, D - 3] \<and>
         differenceInDays (fixedZone tz) now (newDate D) = 5 \<longrightarrow>
         maxStreak s = 4 \<and> consecutiveDays s = 0)"
proof -
  let ?z = "fixedZone tz"
  let ?ds = "uniqueDayStrings logs"
  let ?s = "stats ?z now logs"
  let ?lens = "map (\<lambda>r. int (length r)) (runs ?ds)"
  have sl: "streakLengths ?z ?ds = ?lens" by (rule streakLengths_runs)
  have pos: "filter (\<lambda>n. n > 0) ?lens = ?lens" by (rule runs_lengths_pos)
  have a: "?ds = rev (sorted_list_of_set ((\<lambda>l. toISODate (date l)) ` set (validLogs logs)))"
    by (rule uniqueDayStrings_eq)
  have b: "maximalRuns ?ds (runs ?ds)" by (rule maximalRuns_runs)
  have b': "\<forall>rs'. maximalRuns ?ds rs' \<longrightarrow> rs' = runs ?ds"
    by (simp add: maximalRuns_unique)
  have c: "maxStreak ?s = (if ?lens = [] then 0 else Max (set ?lens))"
    by (simp only: stats_streak_fields sl maxOr0_eq)
  have d: "minStreak ?s = (if ?lens = [] then 0 else Min (set ?lens))"
    by (simp only: stats_streak_fields sl pos minOr0_eq)
  have e: "streakBreaks ?s = max 0 (int (length ?lens) - 1)"
    by (simp only: stats_streak_fields sl pos)
  have cd: "consecutiveDays ?s = currentActiveStreak ?z now ?ds ?lens"
    by (simp only: stats_streak_fields sl)
  have f: "?ds = [] \<longrightarrow> consecutiveDays ?s = 0"
    by (simp add: cd currentActiveStreak_def)
  have g: "?ds \<noteq> [] \<longrightarrow>
         ((consecutiveDays ?s = int (length (hd (runs ?ds)))) =
            (differenceInDays ?z now (newDate (hd ?ds)) \<le> 1)) \<and>
         (\<not> differenceInDays ?z now (newDate (hd ?ds)) \<le> 1 \<longrightarrow> consecutiveDays ?s = 0)"
    using hd_runs_nonempty [of ?ds] by (auto simp: cd currentActiveStreak_runs)
  have h: "?ds = [D, D - 1, D - 2, D - 3] \<and> differenceInDays ?z now (newDate D) = 5 \<longrightarrow>
         maxStreak ?s = 4 \<and> consecutiveDays ?s = 0"
  proof (intro impI, elim conjE)
    assume ds: "?ds = [D, D - 1, D - 2, D - 3]"
      and n: "differenceInDays ?z now (newDate D) = 5"
    have r: "runs ?ds = [[D, D - 1, D - 2, D - 3]]" by (simp add: ds)
    have "maxStreak ?s = 4" unfolding c r by simp
    moreover have "consecutiveDays ?s = 0"
      using g ds n by simp
    ultimately show "maxStreak ?s = 4 \<and> consecutiveDays ?s = 0" by simp
  qed
  show ?thesis
    unfolding Let_def pos
    using a b b' c d e f g h by blast
qed

text \<open>
  On a host that changes its offset the full days between the UTC midnights of two
  neighbouring day keys need not be 1. In New York the clocks went back on 2024-11-03: the
  UTC midnight of 2024-11-03 reads 20:00 of the day before on the local clock, that of
  2024-11-04 reads 19:00, so \<^verbatim>\<open>differenceInDays\<close> finds 23 hours and no full day
  between them.
\<close>

lemmas newYork_evals = keyDiff_def differenceInDays_def compareLocalAsc_def
  differenceInCalendarDays_def mathRound_def startOfDay_def localDay_def localTime_def
  newYork2024_def newDate_def msPerDay_def Let_def

lemma localTime_newYork:
  "localTime newYork2024 (newDate 20030) = newDate 20030 - 4 * 3600000"
  "localTime newYork2024 (newDate 20031) = newDate 20031 - 5 * 3600000"
  by (simp_all add: newYork_evals)

lemma keyDiff_newYork:
  "keyDiff newYork2024 20031 20030 = 0"
  "keyDiff newYork2024 20030 20029 = 1"
  "keyDiff newYork2024 20031 20028 = 2"
  by (simp_all add: newYork_evals)

lemma localDay_newYork:
  "map (localDay newYork2024) [1730721600000, 1730635200000, 1730548800000, 1730462400000]
     = [20031, 20030, 20029, 20028]"
  by (simp add: newYork_evals)

lemma ex1_days:
  "uniqueDayStrings [entry 1730721600000 single 1, entry 1730635200000 single 1,
      entry 1730548800000 single 1] = [20031, 20030, 20029]"
  by (simp add: uniqueDayStrings_def validLogs_def setFrom_def toISODate_def msPerDay_def)

lemma ex1_streakLengths_newYork: "streakLengths newYork2024 [20031, 20030, 20029] = [1, 2]"
  by (simp add: streakLengths_runsBy keyDiff_newYork)

lemma ex1_now_newYork: "differenceInDays newYork2024 1730725200000 (newDate 20031) = 0"
  by (simp add: newYork_evals)

text \<open>
  Claim C1 says that the streaks are the maximal runs of strictly consecutive calendar
  days of the unique activity days, and \<^verbatim>\<open>maxStreak\<close> the greatest run length. On the New
  York host, three entries at 12:00 UTC (07:00 or 08:00 local time) of 2024-11-02,
  2024-11-03 and 2024-11-04 fall on three consecutive days, on the UTC and on the local
  calendar; the one maximal run of their day keys has length 3. The memo at 13:00 UTC of
  2024-11-04 cuts the run at the clock change: \<^verbatim>\<open>maxStreak\<close> is 2, \<^verbatim>\<open>minStreak\<close> 1,
  \<^verbatim>\<open>streakBreaks\<close> 1, \<^verbatim>\<open>restBreaks\<close> 2, and \<^verbatim>\<open>consecutiveDays\<close>, the length of the latest
  run, is 1. The same entries on a host fixed at five hours west of UTC give 3, 3, 0, 1
  and 3.
\<close>

theorem clock_change_cuts_a_streak:
  "map (localDay newYork2024) [1730721600000, 1730635200000, 1730548800000]
     = [20031, 20030, 20029] \<and>
   uniqueDayStrings [entry 1730721600000 single 1, entry 1730635200000 single 1,
      entry 1730548800000 single 1] = [20031, 20030, 20029] \<and>
   maximalRuns [20031, 20030, 20029] [[20031, 20030, 20029]] \<and>
   runs [20031, 20030, 20029] = [[20031, 20030, 20029]] \<and>
   differenceInDays newYork2024 1730725200000 (newDate 20031) = 0 \<and>
   maxStreak (stats newYork2024 1730725200000 [entry 1730721600000 single 1,
      entry 1730635200000 single 1, entry 1730548800000 single 1]) = 2 \<and>
   minStreak (stats newYork2024 1730725200000 [entry 1730721600000 single 1,
      entry 1730635200000 single 1, entry 1730548800000 single 1]) = 1 \<and>
   streakBreaks (stats newYork2024 1730725200000 [entry 1730721600000 single 1,
      entry 1730635200000 single 1, entry 1730548800000 single 1]) = 1 \<and>
   restBreaks (stats newYork2024 1730725200000 [entry 1730721600000 single 1,
      entry 1730635200000 single 1, entry 1730548800000 single 1]) = 2 \<and>
   consecutiveDays (stats newYork2024 1730725200000 [entry 1730721600000 single 1,
      entry 1730635200000 single 1, entry 1730548800000 single 1]) = 1 \<and>
   maxStreak (stats (fixedZone (- 18000000)) 1730725200000 [entry 1730721600000 single 1,
      entry 1730635200000 single 1, entry 1730548800000 single 1]) = 3 \<and>
   minStreak (stats (fixedZone (- 18000000)) 1730725200000 [entry 1730721600000 single 1,
      entry 1730635200000 single 1, entry 1730548800000 single 1]) = 3 \<and>
   streakBreaks (stats (fixedZone (- 18000000)) 1730725200000 [entry 1730721600000 single 1,
      entry 1730635200000 single 1, entry 1730548800000 single 1]) = 0 \<and>
   restBreaks (stats (fixedZone (- 18000000)) 1730725200000 [entry 1730721600000 single 1,
      entry 1730635200000 single 1, entry 1730548800000 single 1]) = 1 \<and>
   consecutiveDays (stats (fixedZone (- 18000000)) 1730725200000
      [entry 1730721600000 single 1, entry 1730635200000 single 1,
       entry 1730548800000 single 1]) = 3"
proof -
  let ?L = "[entry 1730721600000 single 1, entry 1730635200000 single 1,
      entry 1730548800000 single 1]"
  let ?s = "stats newYork2024 1730725200000 ?L"
  let ?t = "stats (fixedZone (- 18000000)) 1730725200000 ?L"
  have ld: "map (localDay newYork2024) [1730721600000, 1730635200000, 1730548800000]
     = [20031, 20030, 20029]"
    using localDay_newYork by simp
  have r: "runs [20031, 20030, 20029] = [[20031, 20030, 20029]]" by simp
  have m: "maximalRuns [20031, 20030, 20029] [[20031, 20030, 20029]]"
    using maximalRuns_runs [of "[20031, 20030, 20029]"] by (simp only: r)
  have s1: "maxStreak ?s = 2"
    by (simp only: stats_streak_fields ex1_days ex1_streakLengths_newYork)
       (simp add: maxOr0_def)
  have s2: "minStreak ?s = 1"
    by (simp only: stats_streak_fields ex1_days ex1_streakLengths_newYork)
       (simp add: minOr0_def)
  have s3: "streakBreaks ?s = 1"
    by (simp only: stats_streak_fields ex1_days ex1_streakLengths_newYork) simp
  have s4: "restBreaks ?s = 2"
    by (simp only: stats_streak_fields ex1_days ex1_streakLengths_newYork) simp
  have s5: "consecutiveDays ?s = 1"
    by (simp only: stats_streak_fields ex1_days ex1_streakLengths_newYork)
       (simp add: currentActiveStreak_def ex1_now_newYork)
  have n: "differenceInDays (fixedZone (- 18000000)) 1730725200000 (newDate 20031) = 0"
    by (simp add: differenceInDays_trunc newDate_def msPerDay_def)
  have t1: "maxStreak ?t = 3"
    by (simp only: stats_streak_fields ex1_days streakLengths_runs r) (simp add: maxOr0_def)
  have t2: "minStreak ?t = 3"
    by (simp only: stats_streak_fields ex1_days streakLengths_runs r) (simp add: minOr0_def)
  have t3: "streakBreaks ?t = 0"
    by (simp only: stats_streak_fields ex1_days streakLengths_runs r) simp
  have t4: "restBreaks ?t = 1"
    by (simp only: stats_streak_fields ex1_days streakLengths_runs r) simp
  have t5: "consecutiveDays ?t = 3"
    by (simp only: stats_streak_fields ex1_days streakLengths_runs r)
       (simp add: currentActiveStreak_def n)
  show ?thesis
    using ld ex1_days m r ex1_now_newYork s1 s2 s3 s4 s5 t1 t2 t3 t4 t5 by simp
qed

section \<open>Rest gaps\<close>

text \<open>
  On a host whose offset never changes, the rest gaps are the positive values of the
  difference of the day numbers minus one over the adjacent pairs of the descending
  unique day keys of the non-incident entries.
\<close>

lemma rest_gaps_fixed_offset:
  "let ds = uniqueDayStrings logs; gaps = gapsOf ds; s = stats (fixedZone tz) now logs
   in ds = rev (sorted_list_of_set ((\<lambda>l. toISODate (date l)) `
             set (filter (\<lambda>l. type l \<noteq> night) logs))) \<and>
      gaps = filter (\<lambda>gap. gap > 0)
               (map (\<lambda>i. ds ! i - ds ! (i + 1) - 1) [0 ..< length ds - 1]) \<and>
      maxRestStreak s = (if gaps = [] then 0 else Max (set gaps)) \<and>
      minRestStreak s = (if gaps = [] then 0 else Min (set gaps)) \<and>
      restBreaks s = int (length (runs ds)) \<and>
      (ds = [D, D - 3] \<longrightarrow>
         maxStreak s = 1 \<and> streakBreaks s = 1 \<and> maxRestStreak s = 2 \<and>
         minRestStreak s = 2 \<and> restBreaks s = 2)"
proof -
  let ?z = "fixedZone tz"
  let ?ds = "uniqueDayStrings logs"
  let ?s = "stats ?z now logs"
  have sl: "streakLengths ?z ?ds = map (\<lambda>r. int (length r)) (runs ?ds)"
    by (rule streakLengths_runs)
  have rg: "restGaps ?z ?ds = gapsOf ?ds" by (rule restGaps_gapsOf)
  have k: "?ds = rev (sorted_list_of_set ((\<lambda>l. toISODate (date l)) `
             set (filter (\<lambda>l. type l \<noteq> night) logs)))"
    by (simp add: uniqueDayStrings_eq validLogs_def)
  have z: "map (\<lambda>(newer, older). newer - older - 1) (zip ?ds (tl ?ds))
             = map (\<lambda>i. ?ds ! i - ?ds ! (i + 1) - 1) [0 ..< length ?ds - 1]"
    by (rule nth_equalityI) (simp_all add: nth_tl)
  have g0: "gapsOf ?ds = filter (\<lambda>gap. gap > 0)
               (map (\<lambda>i. ?ds ! i - ?ds ! (i + 1) - 1) [0 ..< length ?ds - 1])"
    by (simp only: gapsOf_def z)
  have a: "maxRestStreak ?s = (if gapsOf ?ds = [] then 0 else Max (set (gapsOf ?ds)))"
    by (simp only: stats_streak_fields rg maxOr0_eq)
  have b: "minRestStreak ?s = (if gapsOf ?ds = [] then 0 else Min (set (gapsOf ?ds)))"
    by (simp only: stats_streak_fields rg minOr0_eq)
  have c: "restBreaks ?s = int (length (runs ?ds))"
    by (simp add: stats_streak_fields sl)
  have d: "?ds = [D, D - 3] \<longrightarrow>
         maxStreak ?s = 1 \<and> streakBreaks ?s = 1 \<and> maxRestStreak ?s = 2 \<and>
         minRestStreak ?s = 2 \<and> restBreaks ?s = 2"
  proof
    assume ds: "?ds = [D, D - 3]"
    have r: "runs ?ds = [[D], [D - 3]]" by (simp add: ds)
    have g: "gapsOf ?ds = [2]" by (simp add: ds gapsOf_def)
    have "maxStreak ?s = 1"
      by (simp add: stats_streak_fields sl r maxOr0_def)
    moreover have "streakBreaks ?s = 1"
      by (simp add: stats_streak_fields sl r)
    moreover have "maxRestStreak ?s = 2" unfolding a g by simp
    moreover have "minRestStreak ?s = 2" unfolding b g by simp
    moreover have "restBreaks ?s = 2" unfolding c r by simp
    ultimately show "maxStreak ?s = 1 \<and> streakBreaks ?s = 1 \<and> maxRestStreak ?s = 2 \<and>
         minRestStreak ?s = 2 \<and> restBreaks ?s = 2" by simp
  qed
  show ?thesis unfolding Let_def using k g0 a b c d by blast
qed

lemma ex2_days:
  "uniqueDayStrings [entry 1730462400000 single 1, entry 1730721600000 multi 1]
     = [20031, 20028]"
  by (simp add: uniqueDayStrings_def validLogs_def setFrom_def toISODate_def msPerDay_def)

lemma ex2_restGaps_newYork: "restGaps newYork2024 [20031, 20028] = [1]"
  by (simp add: restGaps_gapsBy gapsBy_def keyDiff_newYork)

lemma ex2_streakLengths_newYork: "streakLengths newYork2024 [20031, 20028] = [1, 1]"
  by (simp add: streakLengths_runsBy keyDiff_newYork)

text \<open>
  Claim C2 says that entries on exactly two days separated by 2 empty days give
  \<^verbatim>\<open>maxStreak\<close> 1, \<^verbatim>\<open>streakBreaks\<close> 1, \<^verbatim>\<open>maxRestStreak\<close> and \<^verbatim>\<open>minRestStreak\<close> 2 and
  \<^verbatim>\<open>restBreaks\<close> 2, a rest gap being the whole-day difference of two neighbouring unique
  days minus one. On the New York host, for one entry at 12:00 UTC of 2024-11-01 and one
  at 12:00 UTC of 2024-11-04 (days 20028 and 20031 on the UTC and on the local calendar,
  with the two empty days 2024-11-02 and 2024-11-03 between them), the memo at 13:00 UTC
  of 2024-11-04 finds 2 full days between the two key midnights: \<^verbatim>\<open>maxRestStreak\<close> and
  \<^verbatim>\<open>minRestStreak\<close> are 1, the other three fields are as claimed. On a host fixed at five
  hours west of UTC both are 2.
\<close>

theorem clock_change_shortens_a_rest_gap:
  "map (localDay newYork2024) [1730721600000, 1730462400000] = [20031, 20028] \<and>
   uniqueDayStrings [entry 1730462400000 single 1, entry 1730721600000 multi 1]
     = [20031, 20028] \<and>
   gapsOf [20031, 20028] = [2] \<and>
   keyDiff newYork2024 20031 20028 = 2 \<and>
   maxRestStreak (stats newYork2024 1730725200000
      [entry 1730462400000 single 1, entry 1730721600000 multi 1]) = 1 \<and>
   minRestStreak (stats newYork2024 1730725200000
      [entry 1730462400000 single 1, entry 1730721600000 multi 1]) = 1 \<and>
   maxStreak (stats newYork2024 1730725200000
      [entry 1730462400000 single 1, entry 1730721600000 multi 1]) = 1 \<and>
   streakBreaks (stats newYork2024 1730725200000
      [entry 1730462400000 single 1, entry 1730721600000 multi 1]) = 1 \<and>
   restBreaks (stats newYork2024 1730725200000
      [entry 1730462400000 single 1, entry 1730721600000 multi 1]) = 2 \<and>
   maxRestStreak (stats (fixedZone (- 18000000)) 1730725200000
      [entry 1730462400000 single 1, entry 1730721600000 multi 1]) = 2 \<and>
   minRestStreak (stats (fixedZone (- 18000000)) 1730725200000
      [entry 1730462400000 single 1, entry 1730721600000 multi 1]) = 2"
proof -
  let ?L = "[entry 1730462400000 single 1, entry 1730721600000 multi 1]"
  let ?s = "stats newYork2024 1730725200000 ?L"
  let ?t = "stats (fixedZone (- 18000000)) 1730725200000 ?L"
  have ld: "map (localDay newYork2024) [1730721600000, 1730462400000] = [20031, 20028]"
    using localDay_newYork by simp
  have g: "gapsOf [20031, 20028] = [2]" by (simp add: gapsOf_def)
  have s1: "maxRestStreak ?s = 1"
    by (simp only: stats_streak_fields ex2_days ex2_restGaps_newYork) (simp add: maxOr0_def)
  have s2: "minRestStreak ?s = 1"
    by (simp only: stats_streak_fields ex2_days ex2_restGaps_newYork) (simp add: minOr0_def)
  have s3: "maxStreak ?s = 1"
    by (simp only: stats_streak_fields ex2_days ex2_streakLengths_newYork)
       (simp add: maxOr0_def)
  have s4: "streakBreaks ?s = 1"
    by (simp only: stats_streak_fields ex2_days ex2_streakLengths_newYork) simp
  have s5: "restBreaks ?s = 2"
    by (simp only: stats_streak_fields ex2_days ex2_streakLengths_newYork) simp
  have t1: "maxRestStreak ?t = 2"
    by (simp only: stats_streak_fields ex2_days restGaps_gapsOf g) (simp add: maxOr0_def)
  have t2: "minRestStreak ?t = 2"
    by (simp only: stats_streak_fields ex2_days restGaps_gapsOf g) (simp add: minOr0_def)
  show ?thesis
    using ld ex2_days g keyDiff_newYork(3) s1 s2 s3 s4 s5 t1 t2 by simp
qed

section \<open>The empty log list\<close>

text \<open>
  Claim C3. For every reference instant (and every zone) the memo on the empty log list
  returns a result, and in it every count and every duration sum is 0, the activity-streak
  and rest-streak fields and \<^verbatim>\<open>daysSinceLastFlight\<close> are 0, and
  \<^verbatim>\<open>daysSinceLastIncident\<close> is -1. The model has no failing branch to take: on the empty
  list no index is read.
\<close>

theorem stats_empty:
  "stats z now [] =
     \<lparr> flightsToday = 0, flightsThisWeek = 0, flightsThisYear = 0, flightsThisMonth = 0,
       hoursToday = 0, hoursThisWeek = 0, hoursThisMonth = 0, hoursThisYear = 0,
       soloFlightsToday = 0, soloFlightsThisWeek = 0, soloFlightsThisMonth = 0,
       soloFlightsThisYear = 0,
       multiFlightsToday = 0, multiFlightsThisWeek = 0, multiFlightsThisMonth = 0,
       multiFlightsThisYear = 0,
       daysSinceLastFlight = 0,
       consecutiveDays = 0, maxStreak = 0, minStreak = 0, streakBreaks = 0,
       maxRestStreak = 0, minRestStreak = 0, restBreaks = 0,
       totalFlights = 0, totalSoloFlights = 0, totalMultiFlights = 0,
       totalHours = 0, avgDuration = 0, maxDuration = 0, minDuration = 0,
       totalNightFlights = 0, daysSinceLastIncident = - 1 \<rparr>"
  by (simp add: stats_def validLogs_def nightLogs_def sortedLogs_def sortedNightLogs_def
      sortDesc_def getCounts_Nil sumHours_Nil uniqueDayStrings_def setFrom_def
      streakLengths_Nil restGaps_Nil currentActiveStreak_def maxOr0_def minOr0_def)

section \<open>The totals partition the input\<close>

text \<open>
  Claim C9. For every log list and instant, \<^verbatim>\<open>totalFlights\<close> is the sum of
  \<^verbatim>\<open>totalSoloFlights\<close> and \<^verbatim>\<open>totalMultiFlights\<close>, and \<^verbatim>\<open>totalFlights\<close> plus
  \<^verbatim>\<open>totalNightFlights\<close> is the number of entries of the input list.
\<close>

theorem totals_partition:
  "totalFlights (stats z now logs) =
     totalSoloFlights (stats z now logs) + totalMultiFlights (stats z now logs) \<and>
   totalFlights (stats z now logs) + totalNightFlights (stats z now logs) = int (length logs)"
proof
  have "\<forall>l \<in> set (sortedLogs logs). type l \<noteq> night"
    by (simp add: sortedLogs_def set_sortDesc validLogs_def)
  from solo_multi_split [OF this]
  show "totalFlights (stats z now logs) =
     totalSoloFlights (stats z now logs) + totalMultiFlights (stats z now logs)"
    by (simp add: stats_def Let_def getCounts_def)
next
  have "totalNightFlights (stats z now logs) = int (length (nightLogs logs))"
    by (simp add: stats_def Let_def)
  with valid_night_split [of logs] totalFlights_eq [of z now logs]
  show "totalFlights (stats z now logs) + totalNightFlights (stats z now logs)
          = int (length logs)"
    by simp
qed

section \<open>Incident entries\<close>

lemma validLogs_idem: "validLogs (validLogs logs) = validLogs logs"
  by (simp add: validLogs_def)

lemma nightLogs_validLogs: "nightLogs (validLogs logs) = []"
  by (simp add: nightLogs_def validLogs_def)

lemma sortedLogs_validLogs: "sortedLogs (validLogs logs) = sortedLogs logs"
  by (simp add: sortedLogs_def validLogs_idem)

lemma uniqueDayStrings_validLogs: "uniqueDayStrings (validLogs logs) = uniqueDayStrings logs"
  by (simp add: uniqueDayStrings_def validLogs_idem)

lemma sortDesc_hd_Max:
  assumes "xs \<noteq> []"
  shows "date (sortDesc xs ! 0) = Max (date ` set xs)"
proof -
  let ?ys = "sortDesc xs"
  have ne: "?ys \<noteq> []" using assms length_sortDesc [of xs] by (cases ?ys) auto
  have srt: "sorted (map (\<lambda>l. - date l) ?ys)" by (simp add: sortDesc_def)
  have "\<forall>y \<in> set ?ys. date y \<le> date (hd ?ys)"
  proof (cases ?ys)
    case Nil
    with ne show ?thesis by simp
  next
    case (Cons y ys)
    with srt show ?thesis by auto
  qed
  then have "\<forall>x \<in> set xs. date x \<le> date (hd ?ys)" by (simp add: set_sortDesc)
  moreover have "hd ?ys \<in> set xs" using ne set_sortDesc [of xs] hd_in_set [OF ne] by simp
  ultimately have "Max (date ` set xs) = date (hd ?ys)"
    by (intro Max_eqI) auto
  then show ?thesis using ne by (simp add: hd_conv_nth)
qed

text \<open>
  Claim C4. For every log list and instant, the incident entries contribute to none of the
  period counts, duration sums, duration extremes and streak fields: the result is that of
  the list from which every entry of the incident category has been removed, but for two
  fields. \<^verbatim>\<open>totalNightFlights\<close> is the number of incident entries, and
  \<^verbatim>\<open>daysSinceLastIncident\<close> is the whole days that \<^verbatim>\<open>differenceInDays\<close> finds from the
  latest incident timestamp to now, or -1 when there is no incident entry.
\<close>

theorem incidents_isolated:
  "stats z now logs =
     (stats z now (filter (\<lambda>l. type l \<noteq> night) logs))
       \<lparr> totalNightFlights := int (length (filter (\<lambda>l. type l = night) logs)),
         daysSinceLastIncident :=
           (if filter (\<lambda>l. type l = night) logs = [] then - 1
            else differenceInDays z now
                   (Max (date ` set (filter (\<lambda>l. type l = night) logs)))) \<rparr>"
proof -
  have v: "filter (\<lambda>l. type l \<noteq> night) logs = validLogs logs"
    by (simp add: validLogs_def)
  have n: "length (sortedNightLogs logs) > 0 \<longleftrightarrow> nightLogs logs \<noteq> []"
    by (simp add: sortedNightLogs_def length_sortDesc)
  have d: "nightLogs logs \<noteq> [] \<Longrightarrow>
      date (sortedNightLogs logs ! 0) = Max (date ` set (nightLogs logs))"
    unfolding sortedNightLogs_def by (rule sortDesc_hd_Max)
  show ?thesis
    unfolding v
    unfolding stats_def Let_def sortedLogs_validLogs uniqueDayStrings_validLogs validLogs_idem
    using n d by (simp add: nightLogs_def [symmetric])
qed

section \<open>What the result depends on\<close>

text \<open>
  The memo reads three fields of an entry: the timestamp, the category and the duration.
  Every list operation it uses commutes with stripping the other fields.
\<close>

lemma bare_fields [simp]:
  "date (bare l) = date l" "type (bare l) = type l" "flightTime (bare l) = flightTime l"
  by (simp_all add: bare_def)

lemma bare_readFields: "readFields a = readFields b \<Longrightarrow> bare a = bare b"
  by (simp add: readFields_def bare_def)

lemma map_bare_readFields:
  "map readFields xs = map readFields ys \<Longrightarrow> map bare xs = map bare ys"
proof (induction xs arbitrary: ys)
  case Nil
  then show ?case by simp
next
  case (Cons x xs)
  then obtain y ys' where ys: "ys = y # ys'" by (cases ys) auto
  with Cons.prems have "readFields x = readFields y" "map readFields xs = map readFields ys'"
    by simp_all
  with Cons.IH [of ys'] ys bare_readFields [of x y] show ?case by simp
qed

lemma insort_bare:
  "insort_key (\<lambda>l. - date l) (bare x) (map bare xs)
     = map bare (insort_key (\<lambda>l. - date l) x xs)"
  by (induction xs) simp_all

lemma sortDesc_bare: "sortDesc (map bare xs) = map bare (sortDesc xs)"
  unfolding sortDesc_def by (induction xs) (simp_all add: insort_bare)

lemma validLogs_bare: "validLogs (map bare xs) = map bare (validLogs xs)"
  by (simp add: validLogs_def filter_map comp_def)

lemma nightLogs_bare: "nightLogs (map bare xs) = map bare (nightLogs xs)"
  by (simp add: nightLogs_def filter_map comp_def)

lemma sortedLogs_bare: "sortedLogs (map bare xs) = map bare (sortedLogs xs)"
  by (simp add: sortedLogs_def validLogs_bare sortDesc_bare)

lemma sortedNightLogs_bare: "sortedNightLogs (map bare xs) = map bare (sortedNightLogs xs)"
  by (simp add: sortedNightLogs_def nightLogs_bare sortDesc_bare)

lemma sumHours_bare: "sumHours (map bare xs) = sumHours xs"
  by (simp add: sumHours_def foldl_map)

lemma getCounts_bare: "getCounts z now (map bare xs) = getCounts z now xs"
  by (simp add: getCounts_def filter_map comp_def)

lemma uniqueDayStrings_bare: "uniqueDayStrings (map bare xs) = uniqueDayStrings xs"
  by (simp add: uniqueDayStrings_def validLogs_bare comp_def)

lemma filter_bare:
  "(\<And>l. P (bare l) = P l) \<Longrightarrow> filter P (map bare xs) = map bare (filter P xs)"
  by (simp add: filter_map comp_def)

lemma stats_bare: "stats z now (map bare logs) = stats z now logs"
  unfolding stats_def Let_def sortedLogs_bare sortedNightLogs_bare validLogs_bare
    nightLogs_bare uniqueDayStrings_bare
  by (simp add: filter_bare getCounts_bare sumHours_bare comp_def)

lemma ex8_today:
  "flightsToday (stats (fixedZone 0) 1704247200000
     [entry 1704236400000 single 1, entry 1704243600000 single 1]) = 1"
  "flightsToday (stats (fixedZone 28800000) 1704247200000
     [entry 1704236400000 single 1, entry 1704243600000 single 1]) = 2"
  by (simp_all add: stats_def Let_def getCounts_def sortedLogs_def validLogs_def sortDesc_def
      isSameDay_def startOfDay_fixed localDay_fixed msPerDay_def)

text \<open>
  Claim C8, as amended. The result is determined by the host's zone, the reference instant
  and, entry by entry in stored order, the timestamps, categories and durations of the
  log list: two log lists that agree on these three fields give the same result for the
  same zone and instant, whatever their identifiers, ratings, moods, notes and creation
  times are.
\<close>

theorem stats_reads_three_fields:
  "map readFields logs1 = map readFields logs2 \<Longrightarrow> stats z now logs1 = stats z now logs2"
proof -
  assume "map readFields logs1 = map readFields logs2"
  then have "map bare logs1 = map bare logs2" by (rule map_bare_readFields)
  then have "stats z now (map bare logs1) = stats z now (map bare logs2)" by simp
  then show ?thesis by (simp only: stats_bare)
qed

theorem stats_reads_three_fields_witness:
  "map readFields
     [\<lparr> logId = ''a1'', date = 604800007, type = single, flightTime = 1/4,
        ratings = \<lparr> preFlight = 5, inFlight = 4, postFlight = 3 \<rparr>, mood = None,
        logNotes = ''first'', createdAt = 604800900 \<rparr>,
      \<lparr> logId = ''a2'', date = 864005000, type = night, flightTime = 0,
        ratings = \<lparr> preFlight = 1, inFlight = 1, postFlight = 1 \<rparr>, mood = None,
        logNotes = ''second'', createdAt = 864005900 \<rparr>]
   = map readFields [entry 604800007 single (1/4), entry 864005000 night 0] \<and>
   [\<lparr> logId = ''a1'', date = 604800007, type = single, flightTime = 1/4,
        ratings = \<lparr> preFlight = 5, inFlight = 4, postFlight = 3 \<rparr>, mood = None,
        logNotes = ''first'', createdAt = 604800900 \<rparr>,
      \<lparr> logId = ''a2'', date = 864005000, type = night, flightTime = 0,
        ratings = \<lparr> preFlight = 1, inFlight = 1, postFlight = 1 \<rparr>, mood = None,
        logNotes = ''second'', createdAt = 864005900 \<rparr>]
   \<noteq> [entry 604800007 single (1/4), entry 864005000 night 0] \<and>
   stats (fixedZone 0) 864009000
     [\<lparr> logId = ''a1'', date = 604800007, type = single, flightTime = 1/4,
        ratings = \<lparr> preFlight = 5, inFlight = 4, postFlight = 3 \<rparr>, mood = None,
        logNotes = ''first'', createdAt = 604800900 \<rparr>,
      \<lparr> logId = ''a2'', date = 864005000, type = night, flightTime = 0,
        ratings = \<lparr> preFlight = 1, inFlight = 1, postFlight = 1 \<rparr>, mood = None,
        logNotes = ''second'', createdAt = 864005900 \<rparr>]
   = stats (fixedZone 0) 864009000 [entry 604800007 single (1/4), entry 864005000 night 0]"
proof -
  let ?A = "[\<lparr> logId = ''a1'', date = 604800007, type = single, flightTime = 1/4,
        ratings = \<lparr> preFlight = 5, inFlight = 4, postFlight = 3 \<rparr>, mood = None,
        logNotes = ''first'', createdAt = 604800900 \<rparr>,
      \<lparr> logId = ''a2'', date = 864005000, type = night, flightTime = 0,
        ratings = \<lparr> preFlight = 1, inFlight = 1, postFlight = 1 \<rparr>, mood = None,
        logNotes = ''second'', createdAt = 864005900 \<rparr>]"
  let ?B = "[entry 604800007 single (1/4), entry 864005000 night 0]"
  have e: "map readFields ?A = map readFields ?B" by (simp add: readFields_def)
  have n: "?A \<noteq> ?B" by simp
  from stats_reads_three_fields [OF e] e n show ?thesis by simp
qed

text \<open>
  Claim C8 as stated makes the result a function of the log list and the reference
  instant alone. The host's zone is a third input, which the source reads from its
  environment: for the same two entries (23:00 and 01:00 UTC around the midnight that
  begins 2024-01-03) and the same instant (02:00 UTC of 2024-01-03), a host on UTC counts
  one entry today and a host eight hours east of UTC counts two.
\<close>

theorem stats_depends_on_the_zone:
  "flightsToday (stats (fixedZone 0) 1704247200000
     [entry 1704236400000 single 1, entry 1704243600000 single 1]) = 1 \<and>
   flightsToday (stats (fixedZone 28800000) 1704247200000
     [entry 1704236400000 single 1, entry 1704243600000 single 1]) = 2 \<and>
   stats (fixedZone 0) 1704247200000
     [entry 1704236400000 single 1, entry 1704243600000 single 1]
   \<noteq> stats (fixedZone 28800000) 1704247200000
     [entry 1704236400000 single 1, entry 1704243600000 single 1]"
proof -
  let ?L = "[entry 1704236400000 single 1, entry 1704243600000 single 1]"
  have "stats (fixedZone 0) 1704247200000 ?L = stats (fixedZone 28800000) 1704247200000 ?L
    \<Longrightarrow> False"
  proof -
    assume "stats (fixedZone 0) 1704247200000 ?L = stats (fixedZone 28800000) 1704247200000 ?L"
    then have "flightsToday (stats (fixedZone 0) 1704247200000 ?L)
      = flightsToday (stats (fixedZone 28800000) 1704247200000 ?L)" by simp
    then show False by (simp add: ex8_today)
  qed
  then show ?thesis using ex8_today by blast
qed

section \<open>Periods\<close>

text \<open>Some dates of the calendar: day numbers and their year, month (from 0) and day.\<close>

lemma civil_examples:
  "civil 0 = (1970, 0, 1)" "civil (- 1) = (1969, 11, 31)" "civil 11016 = (2000, 1, 29)"
  "civil 19723 = (2024, 0, 1)" "civil 19782 = (2024, 1, 29)" "civil 20088 = (2024, 11, 31)"
  by code_simp+

lemma count_sortDesc: "length (filter P (sortDesc xs)) = length (filter P xs)"
  by (simp add: sortDesc_def filter_sort)


lemma localDay_bounds:
  "localDay (fixedZone tz) t * msPerDay - tz \<le> t \<and> t < localDay (fixedZone tz) t * msPerDay - tz + msPerDay"
  unfolding localDay_fixed msPerDay_def by arith

lemma localDay_unique:
  "d * msPerDay - tz \<le> t \<Longrightarrow> t < d * msPerDay - tz + msPerDay \<Longrightarrow> localDay (fixedZone tz) t = d"
  unfolding localDay_fixed msPerDay_def by arith

lemma isSameDay_iff:
  "isSameDay (fixedZone tz) a now \<longleftrightarrow> startOfDay (fixedZone tz) now \<le> a \<and> a < startOfDay (fixedZone tz) now + msPerDay"
proof -
  have "isSameDay (fixedZone tz) a now \<longleftrightarrow> localDay (fixedZone tz) a = localDay (fixedZone tz) now"
    by (simp add: isSameDay_def startOfDay_fixed msPerDay_def)
  also have "\<dots> \<longleftrightarrow> startOfDay (fixedZone tz) now \<le> a \<and> a < startOfDay (fixedZone tz) now + msPerDay"
    unfolding startOfDay_fixed
    using localDay_bounds [of tz a] localDay_unique [of "localDay (fixedZone tz) now" tz a] by auto
  finally show ?thesis .
qed

lemma weekday_shift:
  "(if (d + 4) mod 7 < 1 then 7 else 0) + (d + 4) mod 7 - 1 = (d + 3) mod (7::int)"
proof -
  define r where "r = (d + 3) mod 7"
  have r: "0 \<le> r" "r < 7" by (simp_all add: r_def)
  have e: "(d + 4) mod 7 = (r + 1) mod 7"
    unfolding r_def by (simp add: mod_simps ac_simps)
  show ?thesis
  proof (cases "r = 6")
    case True
    then show ?thesis unfolding e r_def [symmetric] by simp
  next
    case False
    with r have "(r + 1) mod 7 = r + 1" by simp
    then show ?thesis unfolding e r_def [symmetric] using r by simp
  qed
qed

lemma startOfWeek_Monday: "startOfWeek (fixedZone tz) 1 t = weekStartDay (localDay (fixedZone tz) t) * msPerDay - tz"
  unfolding startOfWeek_fixed getDay_def weekStartDay_def Let_def weekday_shift ..

lemma weekStartDay_props:
  "(weekStartDay d + 4) mod 7 = 1 \<and> weekStartDay d \<le> d \<and> d < weekStartDay d + 7"
proof -
  have "(d - (d + 3) mod 7 + 4) mod 7 = ((d + 3) - (d + 3) mod 7 + 1) mod 7"
    by (simp add: algebra_simps)
  also have "\<dots> = 1" by (simp add: minus_mod_eq_mult_div)
  finally show ?thesis by (simp add: weekStartDay_def)
qed

lemma weekStartDay_unique:
  assumes "(m + 4) mod 7 = 1" "m \<le> d" "d < m + 7"
  shows "weekStartDay d = m"
proof -
  have "(m + 3) mod 7 = (m + 3 + 7) mod 7" by (simp only: mod_add_self2)
  also have "\<dots> = (m + 4 + 6) mod 7" by simp
  also have "\<dots> = ((m + 4) mod 7 + 6) mod 7" by (simp only: mod_add_left_eq)
  finally have m0: "(m + 3) mod 7 = 0" using assms(1) by simp
  have "(d + 3) mod 7 = ((d - m) + (m + 3)) mod 7" by simp
  also have "\<dots> = (d - m) mod 7" using m0 by (metis add.right_neutral mod_add_right_eq)
  also have "\<dots> = d - m" using assms by simp
  finally show ?thesis by (simp add: weekStartDay_def)
qed



lemma isSameWeek_iff:
  "isSameWeek (fixedZone tz) 1 a now \<longleftrightarrow>
     startOfWeek (fixedZone tz) 1 now \<le> a \<and> a < startOfWeek (fixedZone tz) 1 now + 7 * msPerDay"
proof -
  let ?m = "weekStartDay (localDay (fixedZone tz) now)"
  have "isSameWeek (fixedZone tz) 1 a now \<longleftrightarrow> weekStartDay (localDay (fixedZone tz) a) = ?m"
    by (simp add: isSameWeek_def startOfWeek_Monday msPerDay_def)
  also have "\<dots> \<longleftrightarrow> ?m \<le> localDay (fixedZone tz) a \<and> localDay (fixedZone tz) a < ?m + 7"
    using weekStartDay_props [of "localDay (fixedZone tz) a"] weekStartDay_props [of "localDay (fixedZone tz) now"]
      weekStartDay_unique [of ?m "localDay (fixedZone tz) a"]
    by auto
  also have "\<dots> \<longleftrightarrow> ?m * msPerDay - tz \<le> a \<and> a < ?m * msPerDay - tz + 7 * msPerDay"
    using localDay_bounds [of tz a] unfolding msPerDay_def by linarith
  finally show ?thesis by (simp add: startOfWeek_Monday)
qed






lemma getCounts_sortDesc:
  "getCounts (fixedZone tz) now (sortDesc xs) =
     \<lparr> today = int (length (filter (\<lambda>l. startOfDay (fixedZone tz) now \<le> date l \<and>
                                         date l < startOfDay (fixedZone tz) now + msPerDay) xs)),
       week = int (length (filter (\<lambda>l. startOfWeek (fixedZone tz) 1 now \<le> date l \<and>
                                        date l < startOfWeek (fixedZone tz) 1 now + 7 * msPerDay) xs)),
       month = int (length (filter (\<lambda>l. getFullYear (fixedZone tz) (date l) = getFullYear (fixedZone tz) now \<and>
                                         getMonth (fixedZone tz) (date l) = getMonth (fixedZone tz) now) xs)),
       year = int (length (filter (\<lambda>l. getFullYear (fixedZone tz) (date l) = getFullYear (fixedZone tz) now) xs)),
       total = int (length xs) \<rparr>"
  by (simp add: getCounts_def count_sortDesc length_sortDesc isSameDay_iff isSameWeek_iff
      isSameMonth_def)

lemma stats_count_fields:
  "flightsToday (stats z now logs) = today (getCounts z now (sortedLogs logs))"
  "flightsThisWeek (stats z now logs) = week (getCounts z now (sortedLogs logs))"
  "flightsThisMonth (stats z now logs) = month (getCounts z now (sortedLogs logs))"
  "flightsThisYear (stats z now logs) = year (getCounts z now (sortedLogs logs))"
  "totalFlights (stats z now logs) = total (getCounts z now (sortedLogs logs))"
  "soloFlightsToday (stats z now logs) =
     today (getCounts z now (filter (\<lambda>l. type l = single) (sortedLogs logs)))"
  "soloFlightsThisWeek (stats z now logs) =
     week (getCounts z now (filter (\<lambda>l. type l = single) (sortedLogs logs)))"
  "soloFlightsThisMonth (stats z now logs) =
     month (getCounts z now (filter (\<lambda>l. type l = single) (sortedLogs logs)))"
  "soloFlightsThisYear (stats z now logs) =
     year (getCounts z now (filter (\<lambda>l. type l = single) (sortedLogs logs)))"
  "totalSoloFlights (stats z now logs) =
     total (getCounts z now (filter (\<lambda>l. type l = single) (sortedLogs logs)))"
  "multiFlightsToday (stats z now logs) =
     today (getCounts z now (filter (\<lambda>l. type l = multi) (sortedLogs logs)))"
  "multiFlightsThisWeek (stats z now logs) =
     week (getCounts z now (filter (\<lambda>l. type l = multi) (sortedLogs logs)))"
  "multiFlightsThisMonth (stats z now logs) =
     month (getCounts z now (filter (\<lambda>l. type l = multi) (sortedLogs logs)))"
  "multiFlightsThisYear (stats z now logs) =
     year (getCounts z now (filter (\<lambda>l. type l = multi) (sortedLogs logs)))"
  "totalMultiFlights (stats z now logs) =
     total (getCounts z now (filter (\<lambda>l. type l = multi) (sortedLogs logs)))"
  by (simp_all add: stats_def Let_def)


section \<open>Day keys are UTC dates\<close>

lemma ex5_days:
  "uniqueDayStrings [entry 1704150000000 single 1, entry 1704157200000 single 1]
     = [19724, 19723]"
  by (simp add: uniqueDayStrings_def validLogs_def setFrom_def toISODate_def msPerDay_def)

text \<open>
  Claim C5 says the day keys are the local calendar dates of the non-incident entries. The
  keys the memo forms are the UTC dates (\<open>uniqueDayStrings_eq\<close>). In a zone eight hours
  east of UTC, two entries at 07:00 and 09:00 local time of 2024-01-02 get the two keys
  2024-01-01 and 2024-01-02: the period counts, which use local days, see both entries
  today, and the streak fields see two consecutive activity days.
\<close>

theorem utc_day_keys_split_a_local_day:
  "localDay (fixedZone 28800000) 1704150000000 = 19724 \<and>
   localDay (fixedZone 28800000) 1704157200000 = 19724 \<and>
   uniqueDayStrings [entry 1704150000000 single 1, entry 1704157200000 single 1]
     = [19724, 19723] \<and>
   flightsToday (stats (fixedZone 28800000) 1704160800000
     [entry 1704150000000 single 1, entry 1704157200000 single 1]) = 2 \<and>
   maxStreak (stats (fixedZone 28800000) 1704160800000
     [entry 1704150000000 single 1, entry 1704157200000 single 1]) = 2 \<and>
   consecutiveDays (stats (fixedZone 28800000) 1704160800000
     [entry 1704150000000 single 1, entry 1704157200000 single 1]) = 2"
proof -
  let ?L = "[entry 1704150000000 single 1, entry 1704157200000 single 1]"
  have a: "localDay (fixedZone 28800000) 1704150000000 = 19724"
    "localDay (fixedZone 28800000) 1704157200000 = 19724"
    by (simp_all add: localDay_fixed msPerDay_def)
  have b: "flightsToday (stats (fixedZone 28800000) 1704160800000 ?L) = 2"
    by (simp add: stats_count_fields sortedLogs_def validLogs_def getCounts_sortDesc
        startOfDay_fixed localDay_fixed msPerDay_def)
  have r: "runs [19724, 19723] = [[19724, 19723]]" by simp
  have c: "maxStreak (stats (fixedZone 28800000) 1704160800000 ?L) = 2"
    by (simp only: stats_streak_fields ex5_days streakLengths_runs r) (simp add: maxOr0_def)
  have d: "consecutiveDays (stats (fixedZone 28800000) 1704160800000 ?L) = 2"
    by (simp only: stats_streak_fields ex5_days streakLengths_runs r)
       (simp add: currentActiveStreak_def differenceInDays_trunc newDate_def msPerDay_def)
  show ?thesis using a b c d ex5_days by simp
qed

section \<open>Binary64 rounding is monotone and idempotent\<close>



lemma pow2_pos: "(0::rat) < 2 powi a"
  by simp

lemma ilog2_bounds:
  assumes "0 < x"
  shows "2 powi (ilog2 x) \<le> x \<and> x < 2 powi (ilog2 x + 1)"
proof -
  obtain p q where pq: "quotient_of x = (p, q)" by (cases "quotient_of x")
  have q: "0 < q" using quotient_of_denom_pos [OF pq] .
  have x: "x = of_int p / of_int q" using quotient_of_div [OF pq] .
  have p: "0 < p" using assms q x by (simp add: zero_less_divide_iff)
  let ?bp = "bitlen p" and ?bq = "bitlen q"
  have bp1: "1 \<le> ?bp" using p bitlen_eq_zero_iff [of p] bitlen_nonneg [of p] by linarith
  have bq1: "1 \<le> ?bq" using q bitlen_eq_zero_iff [of q] bitlen_nonneg [of q] by linarith
  have plo: "(2::rat) powi (?bp - 1) \<le> of_int p"
  proof -
    have "(2::int) ^ nat (?bp - 1) \<le> p" using bitlen_bounds [OF p] by simp
    then have "(of_int ((2::int) ^ nat (?bp - 1)) :: rat) \<le> of_int p" by (simp only: of_int_le_iff)
    then show ?thesis using bp1 by (simp add: power_int_def)
  qed
  have phi: "of_int p < (2::rat) powi ?bp"
  proof -
    have "p < (2::int) ^ nat ?bp" using bitlen_bounds [OF p] by simp
    then have "(of_int p :: rat) < of_int ((2::int) ^ nat ?bp)" by (simp only: of_int_less_iff)
    then show ?thesis using bp1 by (simp add: power_int_def)
  qed
  have qlo: "(2::rat) powi (?bq - 1) \<le> of_int q"
  proof -
    have "(2::int) ^ nat (?bq - 1) \<le> q" using bitlen_bounds [OF q] by simp
    then have "(of_int ((2::int) ^ nat (?bq - 1)) :: rat) \<le> of_int q" by (simp only: of_int_le_iff)
    then show ?thesis using bq1 by (simp add: power_int_def)
  qed
  have qhi: "of_int q < (2::rat) powi ?bq"
  proof -
    have "q < (2::int) ^ nat ?bq" using bitlen_bounds [OF q] by simp
    then have "(of_int q :: rat) < of_int ((2::int) ^ nat ?bq)" by (simp only: of_int_less_iff)
    then show ?thesis using bq1 by (simp add: power_int_def)
  qed
  let ?d = "?bp - ?bq"
  have qpos: "(0::rat) < of_int q" using q by simp
  have ppos: "(0::rat) < of_int p" using p by simp
  have up: "x < 2 powi (?d + 1)"
  proof -
    have "x * of_int q = of_int p" using x qpos by simp
    also have "\<dots> < 2 powi ?bp" by (rule phi)
    also have "\<dots> = 2 powi (?d + 1) * 2 powi (?bq - 1)"
      by (simp add: power_int_add [symmetric])
    also have "\<dots> \<le> 2 powi (?d + 1) * of_int q"
      using qlo by (simp add: mult_left_mono)
    finally show ?thesis using qpos by (simp add: mult_less_cancel_right)
  qed
  have lo: "2 powi (?d - 1) < x"
  proof -
    have "(2::rat) powi (?d - 1) * of_int q < 2 powi (?d - 1) * 2 powi ?bq"
      using qhi by (simp add: mult_strict_left_mono)
    also have "\<dots> = 2 powi (?bp - 1)" by (simp add: power_int_add [symmetric])
    also have "\<dots> \<le> of_int p" by (rule plo)
    also have "\<dots> = x * of_int q" using x qpos by simp
    finally show ?thesis using qpos by (simp add: mult_less_cancel_right)
  qed
  show ?thesis
  proof (cases "2 powi ?d \<le> x")
    case True
    then have "ilog2 x = ?d" by (simp add: ilog2_def pq)
    with True up show ?thesis by simp
  next
    case False
    then have e: "ilog2 x = ?d - 1" by (simp add: ilog2_def pq)
    from False have "x < 2 powi ?d" by simp
    with lo e show ?thesis by simp
  qed
qed


lemma pow2_52: "(2::rat) powi e = 2 ^ 52 * 2 powi (e - 52)"
  using power_int_add [of "2::rat" 52 "e - 52"] by simp

lemma pow2_53: "(2::rat) powi (e + 1) = 2 ^ 53 * 2 powi (e - 52)"
proof -
  have "e + 1 = 53 + (e - 52)" by simp
  then have "(2::rat) powi (e + 1) = 2 powi (53 + (e - 52))" by (simp only:)
  also have "\<dots> = 2 ^ 53 * 2 powi (e - 52)"
    using power_int_add [of "2::rat" 53 "e - 52"] by simp
  finally show ?thesis .
qed

lemma rte_of_int: "roundTiesToEven (of_int n) = n"
  by (simp add: roundTiesToEven_def)

lemma rte_floor_bounds: "\<lfloor>y\<rfloor> \<le> roundTiesToEven y \<and> roundTiesToEven y \<le> \<lfloor>y\<rfloor> + 1"
  by (simp add: roundTiesToEven_def Let_def)

lemma rte_mono:
  assumes "y \<le> z"
  shows "roundTiesToEven y \<le> roundTiesToEven z"
proof (cases "\<lfloor>y\<rfloor> = \<lfloor>z\<rfloor>")
  case False
  with assms have "\<lfloor>y\<rfloor> < \<lfloor>z\<rfloor>" using floor_mono [OF assms] by linarith
  with rte_floor_bounds [of y] rte_floor_bounds [of z] show ?thesis by linarith
next
  case True
  have "y - of_int \<lfloor>z\<rfloor> \<le> z - of_int \<lfloor>z\<rfloor>" using assms by simp
  then show ?thesis
    unfolding roundTiesToEven_def Let_def True
    by (auto split: if_splits)
qed

lemma rte_ge: "of_int n \<le> y \<Longrightarrow> n \<le> roundTiesToEven y"
  using rte_mono [of "of_int n" y] by (simp add: rte_of_int)

lemma rte_le: "y \<le> of_int n \<Longrightarrow> roundTiesToEven y \<le> n"
  using rte_mono [of y "of_int n"] by (simp add: rte_of_int)

lemma fl_pos_eq:
  "0 < x \<Longrightarrow>
   fl x = of_int (roundTiesToEven (x / 2 powi (ilog2 x - 52))) * 2 powi (ilog2 x - 52)"
  by (simp add: fl_def Let_def)

lemma scaled_bounds:
  assumes "0 < x"
  shows "2 ^ 52 \<le> x / 2 powi (ilog2 x - 52) \<and> x / 2 powi (ilog2 x - 52) < 2 ^ 53"
proof -
  let ?e = "ilog2 x"
  have u: "(0::rat) < 2 powi (?e - 52)" by simp
  have a: "(2::rat) powi ?e = 2 ^ 52 * 2 powi (?e - 52)" by (rule pow2_52)
  have b: "(2::rat) powi (?e + 1) = 2 ^ 53 * 2 powi (?e - 52)" by (rule pow2_53)
  from ilog2_bounds [OF assms] have "2 ^ 52 * 2 powi (?e - 52) \<le> x" "x < 2 ^ 53 * 2 powi (?e - 52)"
    unfolding a b by simp_all
  then show ?thesis using u by (simp add: pos_le_divide_eq pos_divide_less_eq)
qed

lemma sig_bounds:
  assumes "0 < x"
  shows "2 ^ 52 \<le> roundTiesToEven (x / 2 powi (ilog2 x - 52)) \<and>
         roundTiesToEven (x / 2 powi (ilog2 x - 52)) \<le> 2 ^ 53"
proof -
  let ?y = "x / 2 powi (ilog2 x - 52)"
  from scaled_bounds [OF assms] have "of_int (2 ^ 52) \<le> ?y" "?y \<le> of_int (2 ^ 53)" by simp_all
  then show ?thesis using rte_ge [of "2 ^ 52" ?y] rte_le [of ?y "2 ^ 53"] by simp
qed

lemma fl_bounds:
  assumes "0 < x"
  shows "2 powi (ilog2 x) \<le> fl x \<and> fl x \<le> 2 powi (ilog2 x + 1)"
proof -
  let ?e = "ilog2 x"
  let ?u = "(2::rat) powi (?e - 52)"
  let ?m = "roundTiesToEven (x / ?u)"
  have u: "0 < ?u" by simp
  have a: "(2::rat) powi ?e = 2 ^ 52 * ?u" by (rule pow2_52)
  have b: "(2::rat) powi (?e + 1) = 2 ^ 53 * ?u" by (rule pow2_53)
  from sig_bounds [OF assms] have "(of_int (2 ^ 52) :: rat) \<le> of_int ?m" "(of_int ?m :: rat) \<le> of_int (2 ^ 53)"
    by (simp_all only: of_int_le_iff)
  then have "2 ^ 52 * ?u \<le> of_int ?m * ?u" "of_int ?m * ?u \<le> 2 ^ 53 * ?u"
    using u by (simp_all add: mult_right_mono)
  then show ?thesis unfolding a b fl_pos_eq [OF assms] by simp
qed

lemma fl_zero: "fl 0 = 0"
  by (simp add: fl_def)

lemma fl_pos: "0 < x \<Longrightarrow> 0 < fl x"
  using fl_bounds [of x] pow2_pos [of "ilog2 x"] by linarith

lemma fl_nonneg: "0 \<le> x \<Longrightarrow> 0 \<le> fl x"
  using fl_pos [of x] by (cases "x = 0") (simp_all add: fl_zero less_le)






section \<open>Sums over a part of a list\<close>











section \<open>Period aggregates and containment\<close>








section \<open>The average duration\<close>

lemma sumHours_foldl: "sumHours xs = foldl fadd 0 (map flightTime xs)"
  by (simp add: sumHours_def foldl_map)

lemma sum_list_le_max:
  fixes ds :: "rat list"
  shows "\<forall>x \<in> set ds. x \<le> M \<Longrightarrow> sum_list ds \<le> of_nat (length ds) * M"
  by (induction ds) (auto simp: algebra_simps)

lemma sum_list_ge_min:
  fixes ds :: "rat list"
  shows "\<forall>x \<in> set ds. m \<le> x \<Longrightarrow> of_nat (length ds) * m \<le> sum_list ds"
  by (induction ds) (auto simp: algebra_simps)

lemma stats_duration_fields:
  "totalHours (stats z now logs) = sumHours (validLogs logs)"
  "avgDuration (stats z now logs) =
     (if length (validLogs logs) > 0
      then fdiv (sumHours (validLogs logs)) (of_nat (length (validLogs logs))) else 0)"
  "maxDuration (stats z now logs) = maxOr0 (map flightTime (validLogs logs))"
  "minDuration (stats z now logs) = minOr0 (map flightTime (validLogs logs))"
  by (simp_all add: stats_def Let_def)

text \<open>
  One rounding moves a non-negative value by at most the fraction \<open>1 / 2 ^ 53\<close> of it, so
  a sum of \<open>n\<close> non-negative durations, added one by one from 0, lies within the factors
  \<open>(1 - 1 / 2 ^ 53) ^ n\<close> and \<open>(1 + 1 / 2 ^ 53) ^ n\<close> of the exact sum.
\<close>

lemma rte_error: "\<bar>of_int (roundTiesToEven y) - y\<bar> \<le> (1/2 :: rat)"
proof -
  define r where "r = y - of_int \<lfloor>y\<rfloor>"
  have r: "0 \<le> r" "r < 1" unfolding r_def by linarith+
  have y: "y = of_int \<lfloor>y\<rfloor> + r" by (simp add: r_def)
  have "\<bar>of_int (roundTiesToEven y) - (of_int \<lfloor>y\<rfloor> + r)\<bar> \<le> 1/2"
    unfolding roundTiesToEven_def Let_def r_def [symmetric]
    using r by (auto simp: abs_if)
  then show ?thesis using y by simp
qed

lemma fl_error_pos:
  assumes "0 < x"
  shows "\<bar>fl x - x\<bar> \<le> x / 2 ^ 53"
proof -
  let ?u = "(2::rat) powi (ilog2 x - 52)"
  let ?y = "x / ?u"
  have u: "0 < ?u" by simp
  have x: "x = ?y * ?u" using u by simp
  have "fl x - x = (of_int (roundTiesToEven ?y) - ?y) * ?u"
    by (simp add: fl_pos_eq [OF assms] algebra_simps)
  then have "\<bar>fl x - x\<bar> = \<bar>of_int (roundTiesToEven ?y) - ?y\<bar> * ?u"
    using u by (simp add: abs_mult)
  also have "\<dots> \<le> 1/2 * ?u"
    using rte_error [of ?y] u by (intro mult_right_mono) simp_all
  also have "\<dots> \<le> x / 2 ^ 53"
  proof -
    from scaled_bounds [OF assms] have "2 ^ 52 \<le> ?y" by simp
    then have "2 ^ 52 * ?u \<le> ?y * ?u" using u by (intro mult_right_mono) simp_all
    then have "2 ^ 52 * ?u \<le> x" using x by simp
    then show ?thesis by (simp add: field_simps)
  qed
  finally show ?thesis .
qed

lemma fl_upper: "0 \<le> x \<Longrightarrow> fl x \<le> x * (1 + 1 / 2 ^ 53)"
proof (cases "x = 0")
  case True
  then show ?thesis by (simp add: fl_zero)
next
  case False
  assume "0 \<le> x"
  with False have "0 < x" by simp
  from fl_error_pos [OF this] have "fl x - x \<le> x / 2 ^ 53" by linarith
  moreover have "x * (1 + 1 / 2 ^ 53) = x + x / 2 ^ 53" by (simp add: algebra_simps)
  ultimately show ?thesis by linarith
qed

lemma fl_lower: "0 \<le> x \<Longrightarrow> x * (1 - 1 / 2 ^ 53) \<le> fl x"
proof (cases "x = 0")
  case True
  then show ?thesis by (simp add: fl_zero)
next
  case False
  assume "0 \<le> x"
  with False have "0 < x" by simp
  from fl_error_pos [OF this] have "x - fl x \<le> x / 2 ^ 53" by linarith
  moreover have "x * (1 - 1 / 2 ^ 53) = x - x / 2 ^ 53" by (simp add: algebra_simps)
  ultimately show ?thesis by linarith
qed

lemma fold_fadd_nonneg:
  "0 \<le> a \<Longrightarrow> \<forall>d \<in> set ds. 0 \<le> d \<Longrightarrow> 0 \<le> foldl fadd a ds"
proof (induction ds arbitrary: a)
  case Nil
  then show ?case by simp
next
  case (Cons d ds)
  have "0 \<le> fl (a + d)" using Cons.prems by (intro fl_nonneg) simp
  with Cons.IH [of "fl (a + d)"] Cons.prems show ?case by (simp add: fadd_def)
qed

lemma sum_list_nonneg_rat:
  fixes ds :: "rat list"
  shows "\<forall>d \<in> set ds. 0 \<le> d \<Longrightarrow> 0 \<le> sum_list ds"
  by (induction ds) auto

lemma fold_fadd_upper:
  "0 \<le> a \<Longrightarrow> \<forall>d \<in> set ds. 0 \<le> d \<Longrightarrow>
   foldl fadd a ds \<le> (a + sum_list ds) * (1 + 1 / 2 ^ 53) ^ length ds"
proof (induction ds arbitrary: a)
  case Nil
  then show ?case by simp
next
  case (Cons d ds)
  let ?k = "(1 + 1 / 2 ^ 53 :: rat)"
  have d: "0 \<le> d" and rest: "\<forall>d \<in> set ds. 0 \<le> d" using Cons.prems by simp_all
  have s: "0 \<le> sum_list ds" using rest by (rule sum_list_nonneg_rat)
  have k1: "1 \<le> ?k" by simp
  have kp: "0 \<le> ?k ^ length ds" by simp
  have ad: "0 \<le> a + d" using Cons.prems(1) d by simp
  have f0: "0 \<le> fl (a + d)" using ad by (rule fl_nonneg)
  have "foldl fadd (fl (a + d)) ds \<le> (fl (a + d) + sum_list ds) * ?k ^ length ds"
    using Cons.IH [OF f0 rest] .
  also have "\<dots> \<le> ((a + d) * ?k + sum_list ds * ?k) * ?k ^ length ds"
  proof (intro mult_right_mono add_mono kp)
    show "fl (a + d) \<le> (a + d) * ?k" using ad by (rule fl_upper)
    show "sum_list ds \<le> sum_list ds * ?k" using s k1 by (simp add: mult_le_cancel_left1)
  qed
  also have "\<dots> = (a + sum_list (d # ds)) * ?k ^ length (d # ds)"
    by (simp add: algebra_simps)
  finally show ?case by (simp only: foldl_Cons fadd_def [of a d])
qed

lemma fold_fadd_lower:
  "0 \<le> a \<Longrightarrow> \<forall>d \<in> set ds. 0 \<le> d \<Longrightarrow>
   (a + sum_list ds) * (1 - 1 / 2 ^ 53) ^ length ds \<le> foldl fadd a ds"
proof (induction ds arbitrary: a)
  case Nil
  then show ?case by simp
next
  case (Cons d ds)
  let ?k = "(1 - 1 / 2 ^ 53 :: rat)"
  have d: "0 \<le> d" and rest: "\<forall>d \<in> set ds. 0 \<le> d" using Cons.prems by simp_all
  have s: "0 \<le> sum_list ds" using rest by (rule sum_list_nonneg_rat)
  have k1: "?k \<le> 1" "0 \<le> ?k" by simp_all
  have kp: "0 \<le> ?k ^ length ds" using k1(2) by (rule zero_le_power)
  have ad: "0 \<le> a + d" using Cons.prems(1) d by simp
  have f0: "0 \<le> fl (a + d)" using ad by (rule fl_nonneg)
  have "(a + sum_list (d # ds)) * ?k ^ length (d # ds)
          = ((a + d) * ?k + sum_list ds * ?k) * ?k ^ length ds"
    by (simp add: algebra_simps)
  also have "\<dots> \<le> (fl (a + d) + sum_list ds) * ?k ^ length ds"
  proof (intro mult_right_mono add_mono kp)
    show "(a + d) * ?k \<le> fl (a + d)" using ad by (rule fl_lower)
    show "sum_list ds * ?k \<le> sum_list ds" using s k1 by (simp add: mult_le_cancel_left2)
  qed
  also have "\<dots> \<le> foldl fadd (fl (a + d)) ds"
    using Cons.IH [OF f0 rest] .
  finally show ?case by (simp only: foldl_Cons fadd_def [of a d])
qed

lemma mean_between:
  fixes ds :: "rat list"
  assumes "ds \<noteq> []"
  shows "Min (set ds) \<le> sum_list ds / of_nat (length ds) \<and>
         sum_list ds / of_nat (length ds) \<le> Max (set ds)"
proof -
  have npos: "(0::rat) < of_nat (length ds)" using assms by simp
  have up: "sum_list ds \<le> of_nat (length ds) * Max (set ds)"
    by (rule sum_list_le_max) simp
  have lo: "of_nat (length ds) * Min (set ds) \<le> sum_list ds"
    by (rule sum_list_ge_min) simp
  have "sum_list ds / of_nat (length ds) \<le> Max (set ds)"
    using up npos by (simp add: pos_divide_le_eq mult.commute)
  moreover have "Min (set ds) \<le> sum_list ds / of_nat (length ds)"
    using lo npos by (simp add: pos_le_divide_eq mult.commute)
  ultimately show ?thesis by simp
qed

lemma rounded_mean_upper:
  assumes "ds \<noteq> []" "\<forall>d \<in> set ds. 0 \<le> d"
  shows "fdiv (foldl fadd 0 ds) (of_nat (length ds))
           \<le> Max (set ds) * (1 + 1 / 2 ^ 53) ^ (length ds + 1)"
proof -
  let ?k = "(1 + 1 / 2 ^ 53 :: rat)"
  let ?n = "of_nat (length ds) :: rat"
  let ?T = "foldl fadd 0 ds"
  have npos: "0 < ?n" using assms(1) by simp
  have k: "0 \<le> ?k" by simp
  have kn: "0 \<le> ?k ^ length ds" by simp
  have T0: "0 \<le> ?T" using assms(2) by (intro fold_fadd_nonneg) simp_all
  have T: "?T \<le> sum_list ds * ?k ^ length ds"
    using fold_fadd_upper [of 0 ds] assms(2) by simp
  have q0: "0 \<le> ?T / ?n" using T0 npos by simp
  have "fdiv ?T ?n \<le> ?T / ?n * ?k"
    unfolding fdiv_def using q0 by (rule fl_upper)
  also have "\<dots> \<le> (sum_list ds * ?k ^ length ds) / ?n * ?k"
    using T npos k by (intro mult_right_mono divide_right_mono) simp_all
  also have "\<dots> = sum_list ds / ?n * ?k ^ (length ds + 1)"
    by simp
  also have "\<dots> \<le> Max (set ds) * ?k ^ (length ds + 1)"
    using mean_between [OF assms(1)] by (intro mult_right_mono) simp_all
  finally show ?thesis .
qed

lemma rounded_mean_lower:
  assumes "ds \<noteq> []" "\<forall>d \<in> set ds. 0 \<le> d"
  shows "Min (set ds) * (1 - 1 / 2 ^ 53) ^ (length ds + 1)
           \<le> fdiv (foldl fadd 0 ds) (of_nat (length ds))"
proof -
  let ?k = "(1 - 1 / 2 ^ 53 :: rat)"
  let ?n = "of_nat (length ds) :: rat"
  let ?T = "foldl fadd 0 ds"
  have npos: "0 < ?n" using assms(1) by simp
  have k: "0 \<le> ?k" by simp
  have kn: "0 \<le> ?k ^ (length ds + 1)" using k by (rule zero_le_power)
  have T0: "0 \<le> ?T" using assms(2) by (intro fold_fadd_nonneg) simp_all
  have T: "sum_list ds * ?k ^ length ds \<le> ?T"
    using fold_fadd_lower [of 0 ds] assms(2) by simp
  have q0: "0 \<le> ?T / ?n" using T0 npos by simp
  have "Min (set ds) * ?k ^ (length ds + 1) \<le> sum_list ds / ?n * ?k ^ (length ds + 1)"
    using mean_between [OF assms(1)] kn by (intro mult_right_mono) simp_all
  also have "\<dots> = (sum_list ds * ?k ^ length ds) / ?n * ?k"
    by simp
  also have "\<dots> \<le> ?T / ?n * ?k"
    using T npos k by (intro mult_right_mono divide_right_mono) simp_all
  also have "\<dots> \<le> fdiv ?T ?n"
    unfolding fdiv_def using q0 by (rule fl_lower)
  finally show ?thesis .
qed

text \<open>
  Claim C7, as amended. For every log list with a non-incident entry, \<^verbatim>\<open>totalHours\<close> is
  the binary64 sum of the non-incident durations in stored order, \<^verbatim>\<open>avgDuration\<close> is
  the binary64 quotient of \<^verbatim>\<open>totalHours\<close> by their number \<open>n\<close>, \<^verbatim>\<open>maxDuration\<close> and
  \<^verbatim>\<open>minDuration\<close> are the greatest and the least of them, and \<^verbatim>\<open>minDuration\<close> is at
  most \<^verbatim>\<open>maxDuration\<close>. When the durations are non-negative, \<^verbatim>\<open>avgDuration\<close> is at
  least \<^verbatim>\<open>minDuration\<close> times \<open>(1 - 1 / 2 ^ 53) ^ (n + 1)\<close> and at most \<^verbatim>\<open>maxDuration\<close> times
  \<open>(1 + 1 / 2 ^ 53) ^ (n + 1)\<close>. When the sum and the quotient are exact (no rounding
  occurs), \<^verbatim>\<open>avgDuration\<close> lies between \<^verbatim>\<open>minDuration\<close> and \<^verbatim>\<open>maxDuration\<close>.
\<close>

theorem duration_average:
  assumes "filter (\<lambda>l. type l \<noteq> night) logs \<noteq> []"
  shows "let s = stats z now logs;
             ds = map flightTime (filter (\<lambda>l. type l \<noteq> night) logs);
             n = length ds
         in totalHours s = foldl fadd 0 ds \<and>
            avgDuration s = fdiv (totalHours s) (of_nat n) \<and>
            maxDuration s = Max (set ds) \<and> minDuration s = Min (set ds) \<and>
            minDuration s \<le> maxDuration s \<and>
            ((\<forall>d \<in> set ds. 0 \<le> d) \<longrightarrow>
               minDuration s * (1 - 1 / 2 ^ 53) ^ (n + 1) \<le> avgDuration s \<and>
               avgDuration s \<le> maxDuration s * (1 + 1 / 2 ^ 53) ^ (n + 1)) \<and>
            (totalHours s = sum_list ds \<and> avgDuration s = totalHours s / of_nat n \<longrightarrow>
               minDuration s \<le> avgDuration s \<and> avgDuration s \<le> maxDuration s)"
proof -
  let ?s = "stats z now logs"
  let ?ds = "map flightTime (validLogs logs)"
  let ?n = "length ?ds"
  have v: "filter (\<lambda>l. type l \<noteq> night) logs = validLogs logs"
    by (simp add: validLogs_def)
  have ne: "?ds \<noteq> []" using assms v by simp
  have n: "0 < length (validLogs logs)" using assms v by simp
  have a: "totalHours ?s = foldl fadd 0 ?ds"
    by (simp add: stats_duration_fields sumHours_foldl)
  have b: "avgDuration ?s = fdiv (totalHours ?s) (of_nat ?n)"
    using n by (simp add: stats_duration_fields)
  have c: "maxDuration ?s = Max (set ?ds)"
    by (simp only: stats_duration_fields maxOr0_Max [OF ne])
  have d: "minDuration ?s = Min (set ?ds)"
    by (simp only: stats_duration_fields minOr0_Min [OF ne])
  have e: "minDuration ?s \<le> maxDuration ?s"
  proof -
    have "hd ?ds \<in> set ?ds" using ne by (rule hd_in_set)
    then have "Min (set ?ds) \<le> hd ?ds" "hd ?ds \<le> Max (set ?ds)" by simp_all
    then show ?thesis unfolding c d by linarith
  qed
  have r: "(\<forall>d \<in> set ?ds. 0 \<le> d) \<longrightarrow>
               minDuration ?s * (1 - 1 / 2 ^ 53) ^ (?n + 1) \<le> avgDuration ?s \<and>
               avgDuration ?s \<le> maxDuration ?s * (1 + 1 / 2 ^ 53) ^ (?n + 1)"
  proof
    assume nn: "\<forall>d \<in> set ?ds. 0 \<le> d"
    show "minDuration ?s * (1 - 1 / 2 ^ 53) ^ (?n + 1) \<le> avgDuration ?s \<and>
               avgDuration ?s \<le> maxDuration ?s * (1 + 1 / 2 ^ 53) ^ (?n + 1)"
      unfolding b a c d
      using rounded_mean_lower [OF ne nn] rounded_mean_upper [OF ne nn] by simp
  qed
  have f: "totalHours ?s = sum_list ?ds \<and> avgDuration ?s = totalHours ?s / of_nat ?n \<longrightarrow>
               minDuration ?s \<le> avgDuration ?s \<and> avgDuration ?s \<le> maxDuration ?s"
  proof (intro impI, elim conjE)
    assume t: "totalHours ?s = sum_list ?ds" and q: "avgDuration ?s = totalHours ?s / of_nat ?n"
    show "minDuration ?s \<le> avgDuration ?s \<and> avgDuration ?s \<le> maxDuration ?s"
      unfolding q t c d using mean_between [OF ne] by simp
  qed
  show ?thesis unfolding Let_def v using a b c d e r f by blast
qed

lemma exact_halves:
  "fadd 0 (1/2) = 1/2" "fadd (1/2) (1/4) = 3/4" "fdiv (3/4) 2 = 3/8"
  by code_simp+

theorem duration_average_witness:
  "filter (\<lambda>l. type l \<noteq> night) [entry 1704283200000 single (1/2),
      entry 1704200000000 night 5, entry 1704110400000 multi (1/4)] \<noteq> [] \<and>
   (let s = stats (fixedZone 0) 1704290000000
          [entry 1704283200000 single (1/2), entry 1704200000000 night 5,
           entry 1704110400000 multi (1/4)];
        ds = map flightTime (filter (\<lambda>l. type l \<noteq> night)
          [entry 1704283200000 single (1/2), entry 1704200000000 night 5,
           entry 1704110400000 multi (1/4)]);
        n = length ds
    in ds = [1/2, 1/4] \<and> (\<forall>d \<in> set ds. 0 \<le> d) \<and>
       totalHours s = sum_list ds \<and> avgDuration s = totalHours s / of_nat n \<and>
       avgDuration s = 3/8 \<and> maxDuration s = 1/2 \<and> minDuration s = 1/4 \<and>
       minDuration s * (1 - 1 / 2 ^ 53) ^ (n + 1) \<le> avgDuration s \<and>
       avgDuration s \<le> maxDuration s * (1 + 1 / 2 ^ 53) ^ (n + 1) \<and>
       minDuration s \<le> avgDuration s \<and> avgDuration s \<le> maxDuration s)"
proof -
  let ?L = "[entry 1704283200000 single (1/2), entry 1704200000000 night 5,
       entry 1704110400000 multi (1/4)]"
  let ?s = "stats (fixedZone 0) 1704290000000 ?L"
  let ?ds = "map flightTime (filter (\<lambda>l. type l \<noteq> night) ?L)"
  have v: "validLogs ?L = [entry 1704283200000 single (1/2), entry 1704110400000 multi (1/4)]"
    by (simp add: validLogs_def)
  have ne: "filter (\<lambda>l. type l \<noteq> night) ?L \<noteq> []" by simp
  have ds: "?ds = [1/2, 1/4]" by simp
  have nn: "\<forall>d \<in> set ?ds. 0 \<le> d" by simp
  have t: "totalHours ?s = 3/4"
    by (simp add: stats_duration_fields v sumHours_def exact_halves)
  have q: "avgDuration ?s = 3/8"
    by (simp add: stats_duration_fields v sumHours_def exact_halves)
  have mx: "maxDuration ?s = 1/2" by (simp add: stats_duration_fields v maxOr0_def)
  have mn: "minDuration ?s = 1/4" by (simp add: stats_duration_fields v minOr0_def)
  have tt: "totalHours ?s = sum_list ?ds" by (simp add: t)
  have qq: "avgDuration ?s = totalHours ?s / of_nat (length ?ds)" by (simp add: t q)
  from duration_average [OF ne, of "fixedZone 0" 1704290000000] ne ds nn tt qq q mx mn
  show ?thesis unfolding Let_def by blast
qed

text \<open>
  Claim C7 as stated fails by rounding: for three entries of 0.1 hours the sum is
  0.30000000000000004 and its third is 0.10000000000000002, above the maximum 0.1.
\<close>

lemma average_of_three_tenths:
  "fl (1/10) < fdiv (fadd (fadd (fadd 0 (fl (1/10))) (fl (1/10))) (fl (1/10))) 3"
  by code_simp

theorem average_exceeds_maximum:
  "validLogs [entry 1704283200000 single (fl (1/10)), entry 1704196800000 single (fl (1/10)),
      entry 1704110400000 single (fl (1/10))] \<noteq> [] \<and>
   \<not> avgDuration (stats (fixedZone 0) 1704290000000
         [entry 1704283200000 single (fl (1/10)), entry 1704196800000 single (fl (1/10)),
          entry 1704110400000 single (fl (1/10))])
     \<le> maxDuration (stats (fixedZone 0) 1704290000000
         [entry 1704283200000 single (fl (1/10)), entry 1704196800000 single (fl (1/10)),
          entry 1704110400000 single (fl (1/10))])"
proof -
  let ?L = "[entry 1704283200000 single (fl (1/10)), entry 1704196800000 single (fl (1/10)),
          entry 1704110400000 single (fl (1/10))]"
  let ?s = "stats (fixedZone 0) 1704290000000 ?L"
  have v: "validLogs ?L = ?L" by (simp add: validLogs_def)
  have m: "maxDuration ?s = fl (1/10)"
    by (simp add: stats_duration_fields v maxOr0_def)
  have a: "avgDuration ?s = fdiv (fadd (fadd (fadd 0 (fl (1/10))) (fl (1/10))) (fl (1/10))) 3"
    by (simp add: stats_duration_fields v sumHours_def)
  show ?thesis unfolding m a using average_of_three_tenths v by simp
qed

end
